theory Spec2Isabelle
  imports Complex_Main "HOL-Library.Word" "HOL-Library.AList" "HOL-Library.Sublist" "HOL-Library.Log_Nat"
begin

unbundle bit_operations_syntax

section \<open>Python values and the exceptions the decoder could raise\<close>

text \<open>
  \<^verbatim>\<open>decoder.py\<close> works on \<^verbatim>\<open>bytes\<close>: a sequence of integers in \<open>0..255\<close>, here a list of
  8-bit words. Python integers are unbounded (\<open>int\<close>); a Python \<^verbatim>\<open>str\<close> is a sequence of
  Unicode code points. Every operation of the source that can raise is modelled by a function
  into \<open>py_error + 'a\<close>, with \<open>Inl\<close> for the exception.
\<close>

type_synonym byte = "8 word"

type_synonym pystr = "nat list"

datatype py_error =
  IndexError | ValueError | StructError | AttributeError | OverflowError | ZeroDivisionError

text \<open>
  Sequencing: \<open>and_then m f\<close> runs \<open>f\<close> on the value of \<open>m\<close>, unless \<open>m\<close> raised, in which case
  the exception propagates.
\<close>

definition and_then :: "py_error + 'a \<Rightarrow> ('a \<Rightarrow> py_error + 'b) \<Rightarrow> py_error + 'b" where
  "and_then m f = (case m of Inl e \<Rightarrow> Inl e | Inr x \<Rightarrow> f x)"

text \<open>\<^verbatim>\<open>xs[i]\<close> for a non-negative index: \<^verbatim>\<open>IndexError\<close> out of range.\<close>

definition getitem :: "'a list \<Rightarrow> nat \<Rightarrow> py_error + 'a" where
  "getitem xs i = (if i < length xs then Inr (xs ! i) else Inl IndexError)"

text \<open>\<^verbatim>\<open>xs[i:j]\<close> for non-negative bounds: slicing clamps and never raises.\<close>

definition getslice :: "'a list \<Rightarrow> nat \<Rightarrow> nat \<Rightarrow> 'a list" where
  "getslice xs i j = take (j - i) (drop i xs)"

section \<open>HDLC unescaping\<close>

text \<open>
  \<^verbatim>\<open>
  def unescape_hdlc(data: bytes) -> bytes:
      out = bytearray()
      i = 0
      ln = len(data)
      while i < ln:
          b = data[i]
          if b == 0x7D and i + 1 < ln:
              out.append(data[i + 1] ^ 0x20)
              i += 2
          else:
              out.append(b)
              i += 1
      return bytes(out)
  \<close>
  The while loop is the recursive function \<open>unescape_hdlc_loop\<close> over the cursor \<open>i\<close> and the
  output built so far.
\<close>

function unescape_hdlc_loop :: "byte list \<Rightarrow> nat \<Rightarrow> byte list \<Rightarrow> py_error + byte list" where
  "unescape_hdlc_loop data i out =
     (if i < length data then
        (case getitem data i of
           Inl e \<Rightarrow> Inl e
         | Inr b \<Rightarrow>
             if b = 0x7D \<and> i + 1 < length data then
               (case getitem data (i + 1) of
                  Inl e \<Rightarrow> Inl e
                | Inr b' \<Rightarrow> unescape_hdlc_loop data (i + 2) (out @ [b' XOR 0x20]))
             else unescape_hdlc_loop data (i + 1) (out @ [b]))
      else Inr out)"
  by pat_completeness auto
termination
  by (relation "measure (\<lambda>(data, i, out). length data - i)") auto

declare unescape_hdlc_loop.simps [simp del]

definition unescape_hdlc :: "byte list \<Rightarrow> py_error + byte list" where
  "unescape_hdlc data = unescape_hdlc_loop data 0 []"

text \<open>
  The escape convention in the words of the specification, by recursion on the input: an
  escape byte \<open>0x7D\<close> followed by another byte stands for that byte XOR \<open>0x20\<close>; an escape
  byte that ends the input, and every other byte, stand for themselves.
\<close>

fun unescaped :: "byte list \<Rightarrow> byte list" where
  "unescaped [] = []"
| "unescaped [b] = [b]"
| "unescaped (b # b' # rest) =
     (if b = 0x7D then (b' XOR 0x20) # unescaped rest else b # unescaped (b' # rest))"

section \<open>Timestamps\<close>

text \<open>
  Python's \<^verbatim>\<open>datetime(year, month, day, hour, minute)\<close> (second and microsecond default to 0,
  no time zone) raises \<^verbatim>\<open>ValueError\<close> unless \<open>1 \<le> year \<le> 9999\<close>, \<open>1 \<le> month \<le> 12\<close>, the day
  exists in that month of that year, \<open>0 \<le> hour \<le> 23\<close> and \<open>0 \<le> minute \<le> 59\<close>.
\<close>

datatype datetime = Datetime int int int int int

definition is_leap :: "int \<Rightarrow> bool" where
  "is_leap y = (y mod 4 = 0 \<and> (y mod 400 = 0 \<or> y mod 100 \<noteq> 0))"

definition days_in_month :: "int \<Rightarrow> int \<Rightarrow> int" where
  "days_in_month y m =
     (if m = 2 then (if is_leap y then 29 else 28)
      else if m = 4 \<or> m = 6 \<or> m = 9 \<or> m = 11 then 30 else 31)"

definition datetime :: "int \<Rightarrow> int \<Rightarrow> int \<Rightarrow> int \<Rightarrow> int \<Rightarrow> py_error + datetime" where
  "datetime y m d h mi =
     (if 1 \<le> y \<and> y \<le> 9999 \<and> 1 \<le> m \<and> m \<le> 12 \<and> 1 \<le> d \<and> d \<le> days_in_month y m
         \<and> 0 \<le> h \<and> h \<le> 23 \<and> 0 \<le> mi \<and> mi \<le> 59
      then Inr (Datetime y m d h mi) else Inl ValueError)"

text \<open>An ASCII string literal as a Python \<^verbatim>\<open>str\<close>.\<close>

definition ascii :: "string \<Rightarrow> pystr" where
  "ascii s = map of_char s"

text \<open>The decimal digits of a natural number, and \<^verbatim>\<open>"%0wd"\<close> for a non-negative integer.\<close>

fun decimal :: "nat \<Rightarrow> pystr" where
  "decimal n = (if n < 10 then [48 + n] else decimal (n div 10) @ [48 + n mod 10])"

declare decimal.simps [simp del]

definition zero_pad :: "nat \<Rightarrow> int \<Rightarrow> pystr" where
  "zero_pad w n = replicate (w - length (decimal (nat n))) 48 @ decimal (nat n)"

text \<open>
  \<^verbatim>\<open>datetime.isoformat()\<close> with microsecond 0 and no time zone:
  \<^verbatim>\<open>"%04d-%02d-%02dT%02d:%02d:%02d"\<close>, the seconds being 0.
\<close>

fun isoformat :: "datetime \<Rightarrow> pystr" where
  "isoformat (Datetime y m d h mi) =
     zero_pad 4 y @ ascii ''-'' @ zero_pad 2 m @ ascii ''-'' @ zero_pad 2 d @ ascii ''T''
       @ zero_pad 2 h @ ascii '':'' @ zero_pad 2 mi @ ascii '':'' @ zero_pad 2 0"

text \<open>\<^verbatim>\<open>int.from_bytes(bs, "big")\<close>.\<close>

definition int_from_bytes_big :: "byte list \<Rightarrow> int" where
  "int_from_bytes_big bs = foldl (\<lambda>acc b. acc * 256 + uint b) 0 bs"

text \<open>
  \<^verbatim>\<open>
  def _safe_parse_timestamp(value: bytes) -> str | None:
      try:
          if len(value) != 12 or value[0] != 0x07:
              return None
          year = int.from_bytes(value[1:3], "big")
          month = value[3]
          day = value[4]
          hour = value[6]
          minute = value[7]
          if not (1970 <= year <= 2100):
              return None
          if not (1 <= month <= 12 and 1 <= day <= 31 and 0 <= hour <= 23 and 0 <= minute <= 59):
              return None
          return datetime(year, month, day, hour, minute).isoformat()
      except Exception:
          return None
  \<close>
  \<open>parse_timestamp_try\<close> is the body of the \<^verbatim>\<open>try\<close>; \<open>safe_parse_timestamp\<close> is the function,
  whose \<^verbatim>\<open>except\<close> turns every exception of the body into \<^verbatim>\<open>None\<close>.
\<close>

definition parse_timestamp_try :: "byte list \<Rightarrow> py_error + pystr option" where
  "parse_timestamp_try value =
     (if length value \<noteq> 12 then Inr None
      else and_then (getitem value 0) (\<lambda>b0.
        if b0 \<noteq> 0x07 then Inr None
        else
          let year = int_from_bytes_big (getslice value 1 3) in
          and_then (getitem value 3) (\<lambda>b3.
          and_then (getitem value 4) (\<lambda>b4.
          and_then (getitem value 6) (\<lambda>b6.
          and_then (getitem value 7) (\<lambda>b7.
          let month = uint b3; day = uint b4; hour = uint b6; minute = uint b7 in
          if \<not> (1970 \<le> year \<and> year \<le> 2100) then Inr None
          else if \<not> (1 \<le> month \<and> month \<le> 12 \<and> 1 \<le> day \<and> day \<le> 31
                      \<and> 0 \<le> hour \<and> hour \<le> 23 \<and> 0 \<le> minute \<and> minute \<le> 59)
          then Inr None
          else and_then (datetime year month day hour minute) (\<lambda>dt.
                 Inr (Some (isoformat dt)))))))))"

definition safe_parse_timestamp :: "byte list \<Rightarrow> pystr option" where
  "safe_parse_timestamp value =
     (case parse_timestamp_try value of Inl e \<Rightarrow> None | Inr r \<Rightarrow> r)"

section \<open>Text, floats and dictionaries\<close>

text \<open>
  \<^verbatim>\<open>value.decode(errors="ignore")\<close>: UTF-8 decoding that drops what is not well-formed, as
  CPython does it. A byte that cannot start a sequence is dropped alone; a sequence broken by
  a byte that cannot continue it is dropped up to that byte, which is read again as a start;
  a sequence cut off by the end of the input is dropped. Overlong forms, surrogates and code
  points above \<open>0x10FFFF\<close> are not well-formed. The call never raises.
\<close>

definition is_continuation :: "byte \<Rightarrow> bool" where
  "is_continuation b = (0x80 \<le> b \<and> b < 0xC0)"

fun decode_ignore :: "byte list \<Rightarrow> pystr" where
  "decode_ignore [] = []"
| "decode_ignore (b # bs) =
     (if b < 0x80 then unat b # decode_ignore bs
      else if b < 0xC2 then decode_ignore bs
      else if b < 0xE0 then
        (case bs of
           [] \<Rightarrow> []
         | b2 # bs2 \<Rightarrow>
             if is_continuation b2
             then (unat (b AND 0x1F) * 64 + unat (b2 AND 0x3F)) # decode_ignore bs2
             else decode_ignore bs)
      else if b < 0xF0 then
        (case bs of
           [] \<Rightarrow> []
         | b2 # bs2 \<Rightarrow>
             if \<not> is_continuation b2 \<or> (b = 0xE0 \<and> b2 < 0xA0) \<or> (b = 0xED \<and> 0xA0 \<le> b2)
             then decode_ignore bs
             else
               (case bs2 of
                  [] \<Rightarrow> []
                | b3 # bs3 \<Rightarrow>
                    if is_continuation b3
                    then (unat (b AND 0x0F) * 4096 + unat (b2 AND 0x3F) * 64
                            + unat (b3 AND 0x3F)) # decode_ignore bs3
                    else decode_ignore bs2))
      else if b < 0xF5 then
        (case bs of
           [] \<Rightarrow> []
         | b2 # bs2 \<Rightarrow>
             if \<not> is_continuation b2 \<or> (b = 0xF0 \<and> b2 < 0x90) \<or> (b = 0xF4 \<and> 0x90 \<le> b2)
             then decode_ignore bs
             else
               (case bs2 of
                  [] \<Rightarrow> []
                | b3 # bs3 \<Rightarrow>
                    if \<not> is_continuation b3 then decode_ignore bs2
                    else
                      (case bs3 of
                         [] \<Rightarrow> []
                       | b4 # bs4 \<Rightarrow>
                           if is_continuation b4
                           then (unat (b AND 0x07) * 262144 + unat (b2 AND 0x3F) * 4096
                                   + unat (b3 AND 0x3F) * 64 + unat (b4 AND 0x3F))
                                  # decode_ignore bs4
                           else decode_ignore bs3)))
      else decode_ignore bs)"

text \<open>\<^verbatim>\<open>s.strip(chars)\<close>: the characters of \<open>chars\<close> removed from both ends of \<open>s\<close>.\<close>

definition strip :: "pystr \<Rightarrow> pystr \<Rightarrow> pystr" where
  "strip s chars =
     rev (dropWhile (\<lambda>c. c \<in> set chars) (rev (dropWhile (\<lambda>c. c \<in> set chars) s)))"

text \<open>What the specification says of \<^verbatim>\<open>meter_id\<close> ("strip trailing NUL padding"): only the
  NUL characters at the end removed.\<close>

definition rstrip_nul :: "pystr \<Rightarrow> pystr" where
  "rstrip_nul s = rev (dropWhile (\<lambda>c. c = 0) (rev s))"

text \<open>\<^verbatim>\<open>struct.unpack(">I", bs)[0]\<close> (\<open>n = 4\<close>) and \<^verbatim>\<open>struct.unpack(">H", bs)[0]\<close> (\<open>n = 2\<close>):
  a big-endian unsigned integer; \<^verbatim>\<open>struct.error\<close> unless \<open>bs\<close> has exactly \<open>n\<close> bytes.\<close>

definition unpack_be :: "nat \<Rightarrow> byte list \<Rightarrow> py_error + int" where
  "unpack_be n bs = (if length bs = n then Inr (int_from_bytes_big bs) else Inl StructError)"

text \<open>
  A Python \<^verbatim>\<open>float\<close> is an IEEE 754 binary64 number; a finite one is represented here by
  the rational number it denotes. \<open>binary64 q\<close> is the float nearest to \<open>q\<close>: 53 significant
  bits (the quantum never below \<open>2\<^sup>-\<^sup>1\<^sup>0\<^sup>7\<^sup>4\<close>), ties to the even significand. \<open>ilog2 q\<close> is
  \<open>\<lfloor>log\<^sub>2 q\<rfloor>\<close> for \<open>q > 0\<close>.
\<close>

definition ilog2 :: "rat \<Rightarrow> int" where
  "ilog2 q =
     (let (a, b) = quotient_of q;
          t = int (floorlog 2 (nat a)) - int (floorlog 2 (nat b))
      in if nat b * 2 ^ nat t \<le> nat a * 2 ^ nat (- t) then t else t - 1)"

definition round_half_even :: "rat \<Rightarrow> int" where
  "round_half_even q =
     (let f = \<lfloor>q\<rfloor>; r = q - of_int f
      in if r < 1 / 2 then f else if 1 / 2 < r then f + 1 else if even f then f else f + 1)"

definition scale2 :: "rat \<Rightarrow> int \<Rightarrow> rat" where
  "scale2 q e = (if 0 \<le> e then q * 2 ^ nat e else q / 2 ^ nat (- e))"

definition binary64 :: "rat \<Rightarrow> rat" where
  "binary64 q =
     (if q = 0 then 0
      else
        let e = max (ilog2 \<bar>q\<bar> - 52) (- 1074);
            m = round_half_even (scale2 \<bar>q\<bar> (- e))
        in sgn q * scale2 (of_int m) e)"

text \<open>
  \<^verbatim>\<open>n / x\<close> for an \<^verbatim>\<open>int\<close> \<open>n\<close> and a \<^verbatim>\<open>float\<close> \<open>x\<close>: \<open>n\<close> is converted to the nearest float
  (\<^verbatim>\<open>OverflowError\<close> when it is too large for a finite one), then divided
  (\<^verbatim>\<open>ZeroDivisionError\<close> when \<open>x\<close> is zero). The divisors of the decoder are the literals
  \<^verbatim>\<open>1000.0\<close> and \<^verbatim>\<open>10.0\<close>, with which a quotient is finite.
\<close>

definition float_of_int :: "int \<Rightarrow> py_error + rat" where
  "float_of_int n =
     (let f = binary64 (of_int n) in if 2 ^ 1024 \<le> \<bar>f\<bar> then Inl OverflowError else Inr f)"

definition truediv :: "int \<Rightarrow> rat \<Rightarrow> py_error + rat" where
  "truediv n x =
     and_then (float_of_int n) (\<lambda>a.
       if x = 0 then Inl ZeroDivisionError else Inr (binary64 (a / x)))"

text \<open>
  The values the decoder stores, and its result: a \<^verbatim>\<open>dict\<close> with string keys, as an
  association list in insertion order (\<open>AList.update\<close> replaces the value of a key that is
  present and appends a new key). \<open>map_of\<close> looks a key up.
\<close>

datatype pyval = VStr pystr | VInt int | VFloat rat | VList "pyval list"

type_synonym pydict = "(string \<times> pyval) list"

text \<open>\<^verbatim>\<open>d[k] = v\<close>.\<close>

definition setitem :: "pydict \<Rightarrow> string \<Rightarrow> pyval \<Rightarrow> pydict" where
  "setitem d k v = AList.update k v d"

text \<open>\<^verbatim>\<open>d.setdefault(k, []).append(x)\<close>: \<^verbatim>\<open>AttributeError\<close> when \<open>d[k]\<close> is not a list.\<close>

definition setdefault_append :: "pydict \<Rightarrow> string \<Rightarrow> pyval \<Rightarrow> py_error + pydict" where
  "setdefault_append d k x =
     (case map_of d k of
        None \<Rightarrow> Inr (AList.update k (VList [x]) d)
      | Some (VList l) \<Rightarrow> Inr (AList.update k (VList (l @ [x])) d)
      | Some _ \<Rightarrow> Inl AttributeError)"

section \<open>The TLV walk\<close>

text \<open>
  One iteration of the \<^verbatim>\<open>while i < len(payload)\<close> loop of \<^verbatim>\<open>parse_tlv\<close>, entered at cursor
  \<open>i0\<close> with the dictionary \<open>result\<close> and the list \<open>u32_values\<close>. It ends in \<^verbatim>\<open>continue\<close>, with
  the cursor, dictionary and list for the next iteration, in \<^verbatim>\<open>break\<close>, or in an exception.
  \<^verbatim>\<open>
      tag = payload[i]
      i += 1
      if tag == 0x02:
          if i >= len(payload):
              break
          _count = payload[i]
          i += 1
          continue
      if tag == 0x09:
          if i >= len(payload):
              break
          length = payload[i]
          i += 1
          if i + length > len(payload):
              break
          value = payload[i:i + length]
          i += length
          ts = _safe_parse_timestamp(value)
          if ts:
              result["timestamp"] = ts
          elif length == 7:
              result.setdefault("strings", []).append(value.decode(errors="ignore"))
          elif length == 16:
              result["meter_id"] = value.decode(errors="ignore").strip("\x00")
          elif length == 8:
              result["meter_model"] = value.decode(errors="ignore")
          continue
      if tag == 0x06:
          if i + 4 > len(payload):
              break
          val = struct.unpack(">I", payload[i:i + 4])[0]
          i += 4
          u32_values.append(val)
          continue
      if tag == 0x10:
          if i + 2 > len(payload):
              break
          val = struct.unpack(">H", payload[i:i + 2])[0]
          i += 2
          result.setdefault("u16_values", []).append(val)
          continue
      if tag in (0x0F, 0x11):
          if i >= len(payload):
              break
          i += 1
          continue
      break
  \<close>
\<close>

datatype loop_exit = Continue nat pydict "int list" | Break

text \<open>The \<^verbatim>\<open>if ts: ... elif ...\<close> chain on an octet string \<open>value\<close> of \<open>len\<close> bytes: \<^verbatim>\<open>if ts\<close>
  holds for a string that is not empty; \<open>store_by_length\<close> is the chain of \<^verbatim>\<open>elif\<close>s.\<close>

definition store_by_length :: "byte list \<Rightarrow> nat \<Rightarrow> pydict \<Rightarrow> py_error + pydict" where
  "store_by_length value len result =
     (if len = 7 then setdefault_append result ''strings'' (VStr (decode_ignore value))
      else if len = 16 then
        Inr (setitem result ''meter_id'' (VStr (strip (decode_ignore value) [0])))
      else if len = 8 then Inr (setitem result ''meter_model'' (VStr (decode_ignore value)))
      else Inr result)"

definition store_octet_string :: "byte list \<Rightarrow> nat \<Rightarrow> pydict \<Rightarrow> py_error + pydict" where
  "store_octet_string value len result =
     (case safe_parse_timestamp value of
        Some ts \<Rightarrow>
          if ts \<noteq> [] then Inr (setitem result ''timestamp'' (VStr ts))
          else store_by_length value len result
      | None \<Rightarrow> store_by_length value len result)"

definition parse_tlv_step :: "byte list \<Rightarrow> nat \<Rightarrow> pydict \<Rightarrow> int list \<Rightarrow> py_error + loop_exit" where
  "parse_tlv_step payload i0 result u32_values =
     and_then (getitem payload i0) (\<lambda>tag.
     let i = i0 + 1 in
     if tag = 0x02 then
       if i \<ge> length payload then Inr Break
       else and_then (getitem payload i) (\<lambda>count. Inr (Continue (i + 1) result u32_values))
     else if tag = 0x09 then
       if i \<ge> length payload then Inr Break
       else and_then (getitem payload i) (\<lambda>length_byte.
         let len = unat length_byte; i = i + 1 in
         if i + len > length payload then Inr Break
         else
           let value = getslice payload i (i + len); i = i + len in
           and_then (store_octet_string value len result) (\<lambda>result.
             Inr (Continue i result u32_values)))
     else if tag = 0x06 then
       if i + 4 > length payload then Inr Break
       else and_then (unpack_be 4 (getslice payload i (i + 4))) (\<lambda>val.
         Inr (Continue (i + 4) result (u32_values @ [val])))
     else if tag = 0x10 then
       if i + 2 > length payload then Inr Break
       else and_then (unpack_be 2 (getslice payload i (i + 2))) (\<lambda>val.
         and_then (setdefault_append result ''u16_values'' (VInt val)) (\<lambda>result.
           Inr (Continue (i + 2) result u32_values)))
     else if tag = 0x0F \<or> tag = 0x11 then
       if i \<ge> length payload then Inr Break
       else Inr (Continue (i + 1) result u32_values)
     else Inr Break)"

lemma parse_tlv_step_advances:
  "parse_tlv_step payload i result u32_values = Inr (Continue i' result' u32_values') \<Longrightarrow> i < i'"
  by (auto simp: parse_tlv_step_def and_then_def Let_def split: sum.splits if_splits)

text \<open>The loop: it returns the dictionary and the list as they are when it ends.\<close>

function parse_tlv_loop ::
  "byte list \<Rightarrow> nat \<Rightarrow> pydict \<Rightarrow> int list \<Rightarrow> py_error + pydict \<times> int list" where
  "parse_tlv_loop payload i result u32_values =
     (if i < length payload then
        (case parse_tlv_step payload i result u32_values of
           Inl e \<Rightarrow> Inl e
         | Inr Break \<Rightarrow> Inr (result, u32_values)
         | Inr (Continue i' result' u32_values') \<Rightarrow>
             parse_tlv_loop payload i' result' u32_values')
      else Inr (result, u32_values))"
  by pat_completeness auto
termination
  by (relation "measure (\<lambda>(payload, i, result, u32_values). length payload - i)")
    (auto dest: parse_tlv_step_advances)

declare parse_tlv_loop.simps [simp del]

section \<open>The field mapping\<close>

text \<open>
  The part of \<^verbatim>\<open>parse_tlv\<close> after the loop.
  \<^verbatim>\<open>
      if u32_values:
          result["active_power_import"] = u32_values[0]
      if len(u32_values) >= 9:
          tail = u32_values[-9:]
          c1, c2, c3 = tail[3], tail[4], tail[5]
          result["current_l1"] = c1 / 1000.0
          result["current_l2"] = c2 / 1000.0
          result["current_l3"] = c3 / 1000.0
          v1, v2, v3 = tail[6], tail[7], tail[8]
          result["voltage_l1"] = v1 / 10.0
          result["voltage_l2"] = v2 / 10.0
          result["voltage_l3"] = v3 / 10.0
      for v in u32_values:
          if v > 100_000:
              result["active_import_total"] = v / 1000.0
              break
      return result
  \<close>
\<close>

definition map_active_power :: "pydict \<Rightarrow> int list \<Rightarrow> py_error + pydict" where
  "map_active_power result u32_values =
     (if u32_values \<noteq> [] then
        and_then (getitem u32_values 0) (\<lambda>v. Inr (setitem result ''active_power_import'' (VInt v)))
      else Inr result)"

text \<open>\<^verbatim>\<open>result[key] = v / x\<close>.\<close>

definition set_quotient :: "pydict \<Rightarrow> string \<Rightarrow> int \<Rightarrow> rat \<Rightarrow> py_error + pydict" where
  "set_quotient result key v x = and_then (truediv v x) (\<lambda>q. Inr (setitem result key (VFloat q)))"

definition map_tail :: "pydict \<Rightarrow> int list \<Rightarrow> py_error + pydict" where
  "map_tail result u32_values =
     (if length u32_values \<ge> 9 then
        let tail = drop (length u32_values - 9) u32_values in
        and_then (getitem tail 3) (\<lambda>c1.
        and_then (getitem tail 4) (\<lambda>c2.
        and_then (getitem tail 5) (\<lambda>c3.
        and_then (set_quotient result ''current_l1'' c1 1000) (\<lambda>result.
        and_then (set_quotient result ''current_l2'' c2 1000) (\<lambda>result.
        and_then (set_quotient result ''current_l3'' c3 1000) (\<lambda>result.
        and_then (getitem tail 6) (\<lambda>v1.
        and_then (getitem tail 7) (\<lambda>v2.
        and_then (getitem tail 8) (\<lambda>v3.
        and_then (set_quotient result ''voltage_l1'' v1 10) (\<lambda>result.
        and_then (set_quotient result ''voltage_l2'' v2 10) (\<lambda>result.
        set_quotient result ''voltage_l3'' v3 10)))))))))))
      else Inr result)"

text \<open>The \<^verbatim>\<open>for v in u32_values\<close> loop with its \<^verbatim>\<open>break\<close>, over the values still to visit.\<close>

fun map_import_total :: "pydict \<Rightarrow> int list \<Rightarrow> py_error + pydict" where
  "map_import_total result [] = Inr result"
| "map_import_total result (v # vs) =
     (if v > 100000 then set_quotient result ''active_import_total'' v 1000
      else map_import_total result vs)"

definition map_fields :: "pydict \<Rightarrow> int list \<Rightarrow> py_error + pydict" where
  "map_fields result u32_values =
     and_then (map_active_power result u32_values) (\<lambda>result.
     and_then (map_tail result u32_values) (\<lambda>result.
     map_import_total result u32_values))"

text \<open>\<^verbatim>\<open>parse_tlv\<close>: the loop from cursor 0 on an empty dictionary and list, then the mapping.\<close>

definition parse_tlv :: "byte list \<Rightarrow> py_error + pydict" where
  "parse_tlv payload =
     and_then (parse_tlv_loop payload 0 [] []) (\<lambda>(result, u32_values).
       map_fields result u32_values)"

section \<open>The entry point\<close>

text \<open>\<^verbatim>\<open>data.find(sub)\<close>: the lowest index at which \<open>sub\<close> occurs in \<open>data\<close>, or \<open>-1\<close>.
  \<open>find_from\<close> searches a suffix of the data that starts at index \<open>i\<close>.\<close>

fun find_from :: "nat \<Rightarrow> byte list \<Rightarrow> byte list \<Rightarrow> int" where
  "find_from i sub [] = (if sub = [] then int i else - 1)"
| "find_from i sub (b # bs) =
     (if prefix sub (b # bs) then int i else find_from (i + 1) sub bs)"

definition find_sub :: "byte list \<Rightarrow> byte list \<Rightarrow> int" where
  "find_sub data sub = find_from 0 sub data"

text \<open>
  \<^verbatim>\<open>
  def decode_tibber_pulse_message(payload: bytes) -> dict[str, Any]:
      if not payload:
          return {}
      data = unescape_hdlc(payload)
      tlv_start = data.find(b"\x02\x0d\x09\x07")
      if tlv_start != -1:
          tlv = data[tlv_start:]
          decoded = parse_tlv(tlv)
          if decoded:
              return decoded
      ts_start = data.find(b"\x09\x0c\x07")
      if ts_start != -1:
          tlv = data[ts_start:]
          decoded = parse_tlv(tlv)
          if decoded:
              return decoded
      _LOGGER.debug("No TLV block found in payload (len=%d)", len(payload))
      return {}
  \<close>
  \<open>try_anchor data anchor otherwise\<close> is one of the two \<^verbatim>\<open>if ..._start != -1\<close> blocks: it
  returns what \<^verbatim>\<open>parse_tlv\<close> decoded from the anchor on when that is not empty, and goes on
  with \<open>otherwise\<close> if not. The log call has no effect on the result.
\<close>

definition try_anchor :: "byte list \<Rightarrow> byte list \<Rightarrow> (py_error + pydict) \<Rightarrow> py_error + pydict" where
  "try_anchor data anchor otherwise =
     (let start = find_sub data anchor in
      if start \<noteq> - 1 then
        let tlv = drop (nat start) data in
        and_then (parse_tlv tlv) (\<lambda>decoded. if decoded \<noteq> [] then Inr decoded else otherwise)
      else otherwise)"

definition decode_tibber_pulse_message :: "byte list \<Rightarrow> py_error + pydict" where
  "decode_tibber_pulse_message payload =
     (if payload = [] then Inr []
      else
        and_then (unescape_hdlc payload) (\<lambda>data.
          try_anchor data [0x02, 0x0D, 0x09, 0x07]
            (try_anchor data [0x09, 0x0C, 0x07] (Inr []))))"

section \<open>The walk as a sequence of elements\<close>

text \<open>
  The specification describes the walk by the elements it meets (its \<open>TLVElement\<close>): a
  structure with its count byte, an octet string with its bytes, a double-long-unsigned, a
  long-unsigned, a small integer. \<open>next_element\<close> reads the element at the head of a buffer
  after the table of the specification and returns it with the rest of the buffer; it
  returns \<open>None\<close> where the buffer is exhausted, the tag is not recognized or the declared
  length exceeds what is left. \<open>elements\<close> are the elements up to the first such place and
  \<open>unparsed\<close> is the part of the buffer from that place on.
\<close>

datatype element =
  Structure byte | OctetString "byte list" | DoubleLongUnsigned int | LongUnsigned int
  | SmallInt byte

fun next_element :: "byte list \<Rightarrow> (element \<times> byte list) option" where
  "next_element [] = None"
| "next_element (tag # bs) =
     (if tag = 0x02 then
        (case bs of [] \<Rightarrow> None | c # rest \<Rightarrow> Some (Structure c, rest))
      else if tag = 0x09 then
        (case bs of
           [] \<Rightarrow> None
         | n # rest \<Rightarrow>
             if unat n \<le> length rest
             then Some (OctetString (take (unat n) rest), drop (unat n) rest) else None)
      else if tag = 0x06 then
        (if 4 \<le> length bs
         then Some (DoubleLongUnsigned (int_from_bytes_big (take 4 bs)), drop 4 bs) else None)
      else if tag = 0x10 then
        (if 2 \<le> length bs
         then Some (LongUnsigned (int_from_bytes_big (take 2 bs)), drop 2 bs) else None)
      else if tag = 0x0F \<or> tag = 0x11 then
        (case bs of [] \<Rightarrow> None | v # rest \<Rightarrow> Some (SmallInt v, rest))
      else None)"

lemma next_element_shorter: "next_element bs = Some (e, rest) \<Longrightarrow> length rest < length bs"
  by (cases bs) (auto split: if_splits list.splits)

function elements :: "byte list \<Rightarrow> element list" where
  "elements bs = (case next_element bs of None \<Rightarrow> [] | Some (e, rest) \<Rightarrow> e # elements rest)"
  by pat_completeness auto
termination
  by (relation "measure length") (auto dest: next_element_shorter)

declare elements.simps [simp del]

function unparsed :: "byte list \<Rightarrow> byte list" where
  "unparsed bs = (case next_element bs of None \<Rightarrow> bs | Some (e, rest) \<Rightarrow> unparsed rest)"
  by pat_completeness auto
termination
  by (relation "measure length") (auto dest: next_element_shorter)

declare unparsed.simps [simp del]

text \<open>What the loop body of \<^verbatim>\<open>parse_tlv\<close> does with an element once it has read it.\<close>

fun apply_element :: "element \<Rightarrow> pydict \<Rightarrow> int list \<Rightarrow> py_error + pydict \<times> int list" where
  "apply_element (Structure c) result u32_values = Inr (result, u32_values)"
| "apply_element (OctetString v) result u32_values =
     and_then (store_octet_string v (length v) result) (\<lambda>result. Inr (result, u32_values))"
| "apply_element (DoubleLongUnsigned x) result u32_values = Inr (result, u32_values @ [x])"
| "apply_element (LongUnsigned x) result u32_values =
     and_then (setdefault_append result ''u16_values'' (VInt x)) (\<lambda>result.
       Inr (result, u32_values))"
| "apply_element (SmallInt v) result u32_values = Inr (result, u32_values)"

fun apply_elements :: "element list \<Rightarrow> pydict \<Rightarrow> int list \<Rightarrow> py_error + pydict \<times> int list" where
  "apply_elements [] result u32_values = Inr (result, u32_values)"
| "apply_elements (e # es) result u32_values =
     and_then (apply_element e result u32_values) (\<lambda>(result, u32_values).
       apply_elements es result u32_values)"

text \<open>
  The invariant of the walk: \<^verbatim>\<open>strings\<close> and \<^verbatim>\<open>u16_values\<close>, when present, are lists, and the
  values of \<open>u32_values\<close> are unsigned 32-bit numbers. \<open>list_of d k\<close> is the list under \<open>k\<close>,
  empty when the key is absent.
\<close>

definition list_valued :: "pydict \<Rightarrow> string \<Rightarrow> bool" where
  "list_valued d k =
     (case map_of d k of None \<Rightarrow> True | Some (VList l) \<Rightarrow> True | Some _ \<Rightarrow> False)"

definition list_of :: "pydict \<Rightarrow> string \<Rightarrow> pyval list" where
  "list_of d k = (case map_of d k of Some (VList l) \<Rightarrow> l | _ \<Rightarrow> [])"

definition u32_range :: "int list \<Rightarrow> bool" where
  "u32_range vs = list_all (\<lambda>v. 0 \<le> v \<and> v < 2 ^ 32) vs"

definition walk_inv :: "pydict \<Rightarrow> int list \<Rightarrow> bool" where
  "walk_inv result u32_values =
     (list_valued result ''strings'' \<and> list_valued result ''u16_values''
      \<and> u32_range u32_values)"

text \<open>The float stored for \<^verbatim>\<open>v / x\<close> when \<open>v\<close> converts to a float exactly: the float nearest
  to the quotient.\<close>

definition quotient_item :: "int \<Rightarrow> rat \<Rightarrow> pyval" where
  "quotient_item v x = VFloat (binary64 (of_int v / x))"



text \<open>
  Where the walk halts, in the words of the specification: at a tag that is not recognized,
  or at an element whose declared length exceeds what is left of the buffer (an octet string
  whose length byte is missing or larger than the rest, a 4-byte, 2-byte or 1-byte value
  that is cut off, a structure tag without its count byte).
\<close>

definition recognized_tag :: "byte \<Rightarrow> bool" where
  "recognized_tag tag =
     (tag = 0x02 \<or> tag = 0x09 \<or> tag = 0x06 \<or> tag = 0x10 \<or> tag = 0x0F \<or> tag = 0x11)"

definition halting :: "byte list \<Rightarrow> bool" where
  "halting bs =
     (case bs of
        [] \<Rightarrow> False
      | tag # rest \<Rightarrow>
          (tag = 0x09 \<and> (case rest of [] \<Rightarrow> True | n # v \<Rightarrow> length v < unat n))
          \<or> (tag = 0x06 \<and> length rest < 4)
          \<or> (tag = 0x10 \<and> length rest < 2)
          \<or> ((tag = 0x0F \<or> tag = 0x11) \<and> rest = [])
          \<or> (tag = 0x02 \<and> rest = [])
          \<or> \<not> recognized_tag tag)"

text \<open>
  What an element contributes to each key the walk writes, after the classification of the
  specification: a timestamp (an octet string the timestamp decoder accepts), a free-form
  string (length 7), a meter identifier (length 16), a meter model (length 8), a 16-bit
  value. \<open>last_of\<close> is the last element of a list, if there is one.
\<close>

fun timestamp_of :: "element \<Rightarrow> pystr option" where
  "timestamp_of (OctetString v) =
     (case safe_parse_timestamp v of
        Some ts \<Rightarrow> if ts \<noteq> [] then Some ts else None
      | None \<Rightarrow> None)"
| "timestamp_of _ = None"

fun string_of :: "element \<Rightarrow> pystr option" where
  "string_of (OctetString v) =
     (if timestamp_of (OctetString v) = None \<and> length v = 7 then Some (decode_ignore v)
      else None)"
| "string_of _ = None"

fun meter_id_of :: "element \<Rightarrow> pystr option" where
  "meter_id_of (OctetString v) =
     (if timestamp_of (OctetString v) = None \<and> length v = 16
      then Some (strip (decode_ignore v) [0]) else None)"
| "meter_id_of _ = None"

fun meter_model_of :: "element \<Rightarrow> pystr option" where
  "meter_model_of (OctetString v) =
     (if timestamp_of (OctetString v) = None \<and> length v = 8 then Some (decode_ignore v)
      else None)"
| "meter_model_of _ = None"

fun u16_of :: "element \<Rightarrow> int option" where
  "u16_of (LongUnsigned x) = Some x"
| "u16_of _ = None"

definition last_of :: "'a list \<Rightarrow> 'a option" where
  "last_of xs = (if xs = [] then None else Some (last xs))"

text \<open>
  The value under a single-valued key after further qualifying values \<open>xs\<close> have been stored
  (the last one stays), and under a list-valued key after the values \<open>xs\<close> have been appended.
\<close>

definition single_after :: "pyval option \<Rightarrow> pystr list \<Rightarrow> pyval option" where
  "single_after old xs = (if xs = [] then old else Some (VStr (last xs)))"

definition list_after :: "pyval option \<Rightarrow> pyval list \<Rightarrow> pyval option" where
  "list_after old xs =
     (if xs = [] then old
      else Some (VList ((case old of Some (VList l) \<Rightarrow> l | _ \<Rightarrow> []) @ xs)))"

section \<open>Basic facts\<close>

lemma and_then_Inr [simp]: "and_then (Inr x) f = f x"
  by (simp add: and_then_def)

lemma and_then_Inl [simp]: "and_then (Inl e) f = Inl e"
  by (simp add: and_then_def)

lemma getitem_in_range [simp]: "i < length xs \<Longrightarrow> getitem xs i = Inr (xs ! i)"
  by (simp add: getitem_def)

lemma length_getslice [simp]: "j \<le> length xs \<Longrightarrow> length (getslice xs i j) = j - i"
  by (simp add: getslice_def)

section \<open>Properties of the unescaper\<close>

lemma unescaped_drop_escape:
  assumes "Suc i < length data" and "data ! i = 0x7D"
  shows "unescaped (drop i data) = (data ! Suc i XOR 0x20) # unescaped (drop (Suc (Suc i)) data)"
proof -
  from assms have "drop i data = data ! i # data ! Suc i # drop (Suc (Suc i)) data"
    by (simp add: Cons_nth_drop_Suc [symmetric] Suc_lessD)
  with assms show ?thesis by simp
qed

lemma unescaped_drop_plain:
  assumes "i < length data" and "\<not> (data ! i = 0x7D \<and> Suc i < length data)"
  shows "unescaped (drop i data) = data ! i # unescaped (drop (Suc i) data)"
proof (cases "Suc i < length data")
  case True
  then have "drop i data = data ! i # data ! Suc i # drop (Suc (Suc i)) data"
    by (simp add: Cons_nth_drop_Suc [symmetric] Suc_lessD)
  moreover have "drop (Suc i) data = data ! Suc i # drop (Suc (Suc i)) data"
    using True by (simp add: Cons_nth_drop_Suc [symmetric])
  ultimately show ?thesis using assms True by simp
next
  case False
  with assms have "drop i data = [data ! i]"
    by (metis Cons_nth_drop_Suc drop_all not_less)
  moreover from False have "drop (Suc i) data = []" by simp
  ultimately show ?thesis by simp
qed

lemma unescape_hdlc_loop_unescaped:
  "unescape_hdlc_loop data i out = Inr (out @ unescaped (drop i data))"
proof (induction data i out rule: unescape_hdlc_loop.induct)
  case (1 data i out)
  show ?case
  proof (cases "i < length data")
    case False
    then show ?thesis by (subst unescape_hdlc_loop.simps) simp
  next
    case inb: True
    show ?thesis
    proof (cases "data ! i = 0x7D \<and> Suc i < length data")
      case True
      with inb "1.IH"(1) [of "data ! i" "data ! Suc i"] show ?thesis
        by (subst unescape_hdlc_loop.simps) (simp add: unescaped_drop_escape)
    next
      case False
      with inb "1.IH"(2) [of "data ! i"] show ?thesis
        by (subst unescape_hdlc_loop.simps) (auto simp: unescaped_drop_plain)
    qed
  qed
qed

text \<open>
  Claim C7. For every input, \<open>unescape_hdlc\<close> returns (without raising) the input read from
  left to right with each escape byte \<open>0x7D\<close> that is followed by another byte replaced,
  together with that byte, by the byte XOR \<open>0x20\<close> (a byte taken as escaped is not itself read
  as an escape), a final \<open>0x7D\<close> emitted literally and all other bytes unchanged; \<open>7D 20\<close>
  unescapes to \<open>00\<close> and a lone \<open>7D\<close> to \<open>7D\<close>.
\<close>

theorem unescape_hdlc_correct:
  "unescape_hdlc data = Inr (unescaped data)
   \<and> unescape_hdlc [0x7D, 0x20] = Inr [0x00]
   \<and> unescape_hdlc [0x7D] = Inr [0x7D]
   \<and> unescape_hdlc [0x41, 0x7D, 0x7D, 0x20, 0x7D] = Inr [0x41, 0x5D, 0x20, 0x7D]"
  by (simp add: unescape_hdlc_def unescape_hdlc_loop_unescaped)

section \<open>Timestamps: the layout the decoder reads\<close>

text \<open>
  When the timestamp decoder returns a timestamp: the input has 12 bytes and starts with
  \<open>0x07\<close>, the year is read from bytes 1 and 2, the month from byte 3, the day from byte 4,
  the hour from byte 6 and the minute from byte 7, and all are in range.
\<close>

lemma getslice_1_3: "3 \<le> length xs \<Longrightarrow> getslice xs 1 3 = [xs ! 1, xs ! 2]"
proof -
  assume a: "3 \<le> length xs"
  then have "drop 1 xs = xs ! 1 # xs ! 2 # drop 3 xs"
    by (metis Cons_nth_drop_Suc One_nat_def Suc_1 Suc_le_lessD eval_nat_numeral(3) less_Suc_eq_le less_imp_le_nat)
  then show ?thesis by (simp add: getslice_def)
qed

lemma safe_parse_timestamp_layout:
  "safe_parse_timestamp value =
     (let year = uint (value ! 1) * 256 + uint (value ! 2); month = uint (value ! 3);
          day = uint (value ! 4); hour = uint (value ! 6); minute = uint (value ! 7)
      in if length value = 12 \<and> value ! 0 = 0x07 \<and> 1970 \<le> year \<and> year \<le> 2100
            \<and> 1 \<le> month \<and> month \<le> 12 \<and> 1 \<le> day \<and> day \<le> days_in_month year month
            \<and> hour \<le> 23 \<and> minute \<le> 59
         then Some (isoformat (Datetime year month day hour minute)) else None)"
proof (cases "length value = 12")
  case False
  then show ?thesis by (simp add: safe_parse_timestamp_def parse_timestamp_try_def Let_def)
next
  case True
  then have "getslice value 1 3 = [value ! 1, value ! 2]" by (intro getslice_1_3) simp
  then have sl: "getslice value (Suc 0) 3 = [value ! Suc 0, value ! 2]" by simp
  have dim: "days_in_month y m \<le> 31" for y m by (simp add: days_in_month_def)
  show ?thesis
    using True dim [of "uint (value ! 1) * 256 + uint (value ! 2)" "uint (value ! 3)"]
    by (auto simp: safe_parse_timestamp_def parse_timestamp_try_def Let_def sl
        int_from_bytes_big_def datetime_def)
qed

text \<open>
  Claim C2. The docstring of \<^verbatim>\<open>_safe_parse_timestamp\<close> gives \<^verbatim>\<open>07 e9 0b 15 ...\<close> as the timestamp
  of the payload, and the claim expects \<open>2025-11-21T10:30:00\<close> for the octet string
  \<open>07 E9 0B 15 01 00 0A 1E 00 00 00 00\<close>. The code does not produce it: it takes byte 0 for a
  marker and reads the year from bytes 1 and 2, here \<open>0xE90B = 59659\<close>, which its guard
  \<open>1970 \<le> year \<le> 2100\<close> rejects, so the timestamp decoder returns \<^verbatim>\<open>None\<close> and \<^verbatim>\<open>parse_tlv\<close> on
  an element carrying the string stores no \<^verbatim>\<open>timestamp\<close>. With the year bytes replaced by
  \<open>00 01\<close> (bytes 0 and 1, or bytes 1 and 2) no timestamp is produced either, as the claim
  says.
\<close>

theorem timestamp_example_rejected:
  "safe_parse_timestamp [0x07, 0xE9, 0x0B, 0x15, 0x01, 0x00, 0x0A, 0x1E, 0, 0, 0, 0] = None
   \<and> parse_tlv [0x09, 0x0C, 0x07, 0xE9, 0x0B, 0x15, 0x01, 0x00, 0x0A, 0x1E, 0, 0, 0, 0] = Inr []
   \<and> safe_parse_timestamp [0x00, 0x01, 0x0B, 0x15, 0x01, 0x00, 0x0A, 0x1E, 0, 0, 0, 0] = None
   \<and> safe_parse_timestamp [0x07, 0x00, 0x01, 0x15, 0x01, 0x00, 0x0A, 0x1E, 0, 0, 0, 0] = None"
  by code_simp

section \<open>The meter identifier\<close>

lemma safe_parse_timestamp_length: "length v \<noteq> 12 \<Longrightarrow> safe_parse_timestamp v = None"
  by (simp add: safe_parse_timestamp_def parse_timestamp_try_def)

lemma strip_decomp: "\<exists>a b. s = replicate a (0::nat) @ strip s [0] @ replicate b 0"
proof -
  let ?p = "\<lambda>c::nat. c \<in> set [0]"
  have p: "?p = (\<lambda>c. c = 0)" by auto
  have 1: "s = takeWhile ?p s @ dropWhile ?p s" by simp
  have 2: "rev (dropWhile ?p s) = takeWhile ?p (rev (dropWhile ?p s)) @ dropWhile ?p (rev (dropWhile ?p s))"
    by simp
  have 3: "dropWhile ?p s = strip s [0] @ rev (takeWhile ?p (rev (dropWhile ?p s)))"
    unfolding strip_def using arg_cong [OF 2, of rev] by (simp del: takeWhile_dropWhile_id)
  have r: "\<forall>x \<in> set xs. x = (0::nat) \<Longrightarrow> xs = replicate (length xs) 0" for xs
    by (induction xs) auto
  have t: "\<forall>x \<in> set (takeWhile ?p xs). x = 0" for xs
    using set_takeWhileD [of _ ?p xs] by auto
  have a: "takeWhile ?p s = replicate (length (takeWhile ?p s)) 0"
    by (rule r) (rule t)
  have "takeWhile ?p (rev (dropWhile ?p s)) = replicate (length (takeWhile ?p (rev (dropWhile ?p s)))) 0"
    by (rule r) (rule t)
  then have b: "rev (takeWhile ?p (rev (dropWhile ?p s))) = replicate (length (rev (takeWhile ?p (rev (dropWhile ?p s))))) 0"
    by (metis length_rev rev_replicate)
  from 1 3 have "s = takeWhile ?p s @ strip s [0] @ rev (takeWhile ?p (rev (dropWhile ?p s)))"
    by metis
  with a b show ?thesis by metis
qed

lemma strip_ends: "strip s [0] = [] \<or> (hd (strip s [0]) \<noteq> 0 \<and> last (strip s [0]) \<noteq> 0)"
proof (cases "strip s [0] = []")
  case True then show ?thesis by simp
next
  case False
  let ?p = "\<lambda>c::nat. c \<in> set [0]"
  let ?d = "dropWhile ?p s"
  let ?r = "dropWhile ?p (rev ?d)"
  from False have rne: "?r \<noteq> []" by (simp add: strip_def)
  then have "\<not> ?p (hd ?r)" by (rule hd_dropWhile)
  then have l: "last (strip s [0]) \<noteq> 0" using rne by (simp add: strip_def last_rev)
  have dne: "?d \<noteq> []"
  proof
    assume "?d = []"
    then have "?r = []" by (simp only: rev.simps dropWhile.simps)
    with rne show False by (rule notE)
  qed
  then have hd: "\<not> ?p (hd ?d)" by (rule hd_dropWhile)
  have "rev ?d = takeWhile ?p (rev ?d) @ ?r" by simp
  then have "?d = rev ?r @ rev (takeWhile ?p (rev ?d))" by (metis rev_append rev_rev_ident)
  with rne have "hd ?d = hd (rev ?r)" by (metis hd_append2 rev_is_Nil_conv)
  with hd have "hd (strip s [0]) \<noteq> 0" by (simp add: strip_def)
  with l show ?thesis by simp
qed

text \<open>
  Claim C8, as stated, fails: \<^verbatim>\<open>strip("\x00")\<close> removes NUL characters at both ends. For
  the 16 bytes \<open>00 "69706314017539" 00\<close> the stored \<^verbatim>\<open>meter_id\<close> is \<open>"69706314017539"\<close>, while
  removing the trailing padding alone would keep the leading NUL.
\<close>

theorem meter_id_counterexample:
  "parse_tlv [0x09, 0x10, 0x00, 0x36, 0x39, 0x37, 0x30, 0x36, 0x33, 0x31, 0x34, 0x30, 0x31, 0x37,
              0x35, 0x33, 0x39, 0x00]
     = Inr [(''meter_id'', VStr (ascii ''69706314017539''))]
   \<and> rstrip_nul (decode_ignore [0x00, 0x36, 0x39, 0x37, 0x30, 0x36, 0x33, 0x31, 0x34, 0x30, 0x31,
                                 0x37, 0x35, 0x33, 0x39, 0x00])
     = 0 # ascii ''69706314017539''"
  by code_simp

text \<open>
  Claim C8, amended. An octet string of declared length 16 that lies within the buffer (it is
  never a timestamp) makes the walk store under \<^verbatim>\<open>meter_id\<close> its bytes decoded as text with the
  NUL characters at both ends removed and everything between them intact: the text is some
  NULs, the stored string, some NULs, and the stored string neither starts nor ends with NUL.
\<close>

theorem meter_id_stripped:
  assumes "payload ! i = 0x09" and "payload ! (i + 1) = 16" and "i + 18 \<le> length payload"
  shows "\<exists>a b m. parse_tlv_step payload i result u32_values
            = Inr (Continue (i + 18) (setitem result ''meter_id'' (VStr m)) u32_values)
          \<and> m = strip (decode_ignore (getslice payload (i + 2) (i + 18))) [0]
          \<and> decode_ignore (getslice payload (i + 2) (i + 18)) = replicate a 0 @ m @ replicate b 0
          \<and> (m = [] \<or> (hd m \<noteq> 0 \<and> last m \<noteq> 0))"
proof -
  let ?t = "decode_ignore (getslice payload (i + 2) (i + 18))"
  have "parse_tlv_step payload i result u32_values
          = Inr (Continue (i + 18) (setitem result ''meter_id'' (VStr (strip ?t [0]))) u32_values)"
  proof -
    from assms have "payload ! Suc i = 16" by simp
    with assms(1,3) show ?thesis
      apply (simp add: parse_tlv_step_def getitem_def Let_def store_octet_string_def
          store_by_length_def safe_parse_timestamp_length)
      apply (simp add: add.commute)
      done
  qed
  with strip_decomp [of ?t] strip_ends [of ?t] show ?thesis by blast
qed

theorem meter_id_stripped_witness:
  "parse_tlv_step [0x09, 0x10, 0x00, 0x36, 0x39, 0x37, 0x30, 0x36, 0x33, 0x31, 0x34, 0x30, 0x31, 0x37,
              0x35, 0x33, 0x39, 0x00] 0 [] []
    = Inr (Continue 18 [(''meter_id'', VStr (ascii ''69706314017539''))] [])"
proof -
  let ?p = "[0x09, 0x10, 0x00, 0x36, 0x39, 0x37, 0x30, 0x36, 0x33, 0x31, 0x34, 0x30, 0x31, 0x37,
              0x35, 0x33, 0x39, 0x00] :: byte list"
  have s: "strip (decode_ignore (getslice ?p (0 + 2) (0 + 18))) [0] = ascii ''69706314017539''"
    by code_simp
  have t: "setitem [] ''meter_id'' (VStr (ascii ''69706314017539'')) = [(''meter_id'', VStr (ascii ''69706314017539''))]"
    by (simp add: setitem_def)
  from meter_id_stripped [of ?p 0 "[]" "[]"] show ?thesis
    unfolding s by (simp add: t)
qed

section \<open>Floats: the values of the walk convert exactly\<close>

lemma ilog2_of_int:
  assumes "0 < n"
  shows "ilog2 (of_int n) = int (floorlog 2 (nat n)) - 1"
proof -
  from assms have pos: "0 < nat n" by simp
  have f1: "floorlog 2 (nat 1) = 1" by (simp add: compute_floorlog)
  from pos have ge: "1 \<le> floorlog 2 (nat n)"
    by (subst compute_floorlog) simp
  from floorlog_bounds [OF pos, of 2] have "2 ^ (floorlog 2 (nat n) - 1) \<le> nat n" by simp
  with ge f1 show ?thesis
    by (simp add: ilog2_def nat_diff_distrib')
qed

lemma round_half_even_of_int [simp]: "round_half_even (of_int z) = z"
  by (simp add: round_half_even_def)

lemma binary64_of_int_exact:
  assumes "0 \<le> n" and "n < 2 ^ 53"
  shows "binary64 (of_int n) = of_int n"
proof (cases "n = 0")
  case True
  then show ?thesis by (simp add: binary64_def)
next
  case False
  with assms have pos: "0 < n" by simp
  let ?l = "floorlog 2 (nat n)"
  from pos have ge: "1 \<le> ?l" by (subst compute_floorlog) simp
  from assms have "nat n < 2 ^ 53" by (simp add: nat_less_iff)
  then have le: "?l \<le> 53" by (simp add: floorlog_le_iff)
  define k where "k = 53 - ?l"
  have e: "max (ilog2 \<bar>of_int n\<bar> - 52) (- 1074) = - int k"
    using pos ge le ilog2_of_int [OF pos] by (simp add: k_def abs_of_pos flip: of_int_abs)
  have s: "scale2 \<bar>of_int n\<bar> (int k) = of_int (n * 2 ^ k)"
    using pos by (simp add: scale2_def)
  have "scale2 (of_int (n * 2 ^ k)) (- int k) = of_int n"
    by (simp add: scale2_def)
  moreover have "round_half_even (rat_of_int n * 2 ^ k) = n * 2 ^ k"
    using round_half_even_of_int [of "n * 2 ^ k"] by simp
  ultimately show ?thesis
    using e s pos by (simp add: binary64_def Let_def)
qed

lemma float_of_int_exact:
  assumes "0 \<le> n" and "n < 2 ^ 53"
  shows "float_of_int n = Inr (of_int n)"
proof -
  have "(of_int n :: rat) < of_int (2 ^ 53)" using assms by (simp only: of_int_less_iff)
  also have "\<dots> \<le> 2 ^ 1024" by simp
  finally have "\<not> (2 ^ 1024 \<le> \<bar>of_int n :: rat\<bar>)" using assms by simp
  then show ?thesis using assms by (simp add: float_of_int_def binary64_of_int_exact)
qed

lemma truediv_exact:
  assumes "0 \<le> n" and "n < 2 ^ 53" and "x \<noteq> 0"
  shows "truediv n x = Inr (binary64 (of_int n / x))"
  using assms by (simp add: truediv_def float_of_int_exact)

section \<open>The walk applies the elements of the buffer in order\<close>

lemma map_of_setitem [simp]: "map_of (setitem d k v) = (map_of d)(k \<mapsto> v)"
  by (simp add: setitem_def update_conv')

lemma setdefault_append_list_valued:
  "list_valued d k \<Longrightarrow> setdefault_append d k x = Inr (setitem d k (VList (list_of d k @ [x])))"
  by (auto simp: list_valued_def list_of_def setdefault_append_def setitem_def
      split: option.splits pyval.splits)

lemma list_valued_setitem:
  "list_valued (setitem d k v) k' = (if k' = k then (\<exists>l. v = VList l) else list_valued d k')"
  by (auto simp: list_valued_def split: pyval.splits)

lemma list_of_setitem:
  "list_of (setitem d k v) k' = (if k' = k then (case v of VList l \<Rightarrow> l | _ \<Rightarrow> []) else list_of d k')"
  by (auto simp: list_of_def split: pyval.splits)

lemma store_by_length_pure:
  "list_valued result ''strings'' \<Longrightarrow>
   store_by_length value len result =
     Inr (if len = 7 then
            setitem result ''strings'' (VList (list_of result ''strings'' @ [VStr (decode_ignore value)]))
          else if len = 16 then
            setitem result ''meter_id'' (VStr (strip (decode_ignore value) [0]))
          else if len = 8 then setitem result ''meter_model'' (VStr (decode_ignore value))
          else result)"
  by (simp add: store_by_length_def setdefault_append_list_valued)

lemma int_from_bytes_big_snoc:
  "int_from_bytes_big (bs @ [b]) = int_from_bytes_big bs * 256 + uint b"
  by (simp add: int_from_bytes_big_def)

lemma int_from_bytes_big_bounds:
  "0 \<le> int_from_bytes_big bs \<and> int_from_bytes_big bs < 256 ^ length bs"
proof (induction bs rule: rev_induct)
  case Nil
  then show ?case by (simp add: int_from_bytes_big_def)
next
  case (snoc b bs)
  have "uint b < 256" using uint_bounded [of b] by simp
  moreover have "0 \<le> uint b" by simp
  ultimately show ?case using snoc by (simp add: int_from_bytes_big_snoc) 
qed

lemma next_element_suffix:
  "next_element bs = Some (e, rest) \<Longrightarrow> \<exists>k. 0 < k \<and> k \<le> length bs \<and> rest = drop k bs"
proof (cases bs)
  case Nil
  then show "next_element bs = Some (e, rest) \<Longrightarrow> ?thesis" by simp
next
  case (Cons tag bs')
  assume ne: "next_element bs = Some (e, rest)"
  have one: "rest = bs' \<Longrightarrow> ?thesis" using Cons by (intro exI [of _ 1]) simp
  have two: "bs' = c # rest \<Longrightarrow> ?thesis" for c using Cons by (intro exI [of _ 2]) simp
  have more: "rest = drop n bs' \<Longrightarrow> n \<le> length bs' \<Longrightarrow> ?thesis" for n
    using Cons by (intro exI [of _ "Suc n"]) simp
  have more2: "bs' = c # r \<Longrightarrow> rest = drop n r \<Longrightarrow> n \<le> length r \<Longrightarrow> ?thesis" for n c r
    using Cons by (intro exI [of _ "Suc (Suc n)"]) simp
  from ne Cons show ?thesis
    by (auto split: if_splits list.splits intro: two more more2)
qed

lemma and_then_assoc: "and_then (and_then m f) g = and_then m (\<lambda>x. and_then (f x) g)"
  by (cases m) simp_all

lemma drop_Cons_nth: "i < length xs \<Longrightarrow> drop i xs = xs ! i # drop (Suc i) xs"
  by (simp add: Cons_nth_drop_Suc)

lemma unpack_be_getslice:
  "i + n \<le> length payload \<Longrightarrow>
   unpack_be n (getslice payload i (i + n)) = Inr (int_from_bytes_big (take n (drop i payload)))"
  by (simp add: unpack_be_def getslice_def)

lemma parse_tlv_step_next_element:
  assumes "i < length payload"
  shows "parse_tlv_step payload i result u32_values =
     (case next_element (drop i payload) of
        None \<Rightarrow> Inr Break
      | Some (e, rest) \<Rightarrow>
          and_then (apply_element e result u32_values) (\<lambda>(r, u).
            Inr (Continue (length payload - length rest) r u)))"
proof -
  let ?tag = "payload ! i"
  let ?bs = "drop (Suc i) payload"
  have d: "drop i payload = ?tag # ?bs" using assms by (rule drop_Cons_nth)
  have step: "parse_tlv_step payload i result u32_values =
      (let i' = i + 1 in
       if ?tag = 0x02 then
         if i' \<ge> length payload then Inr Break
         else Inr (Continue (i' + 1) result u32_values)
       else if ?tag = 0x09 then
         if i' \<ge> length payload then Inr Break
         else
           let len = unat (payload ! i') in
           if i' + 1 + len > length payload then Inr Break
           else
             and_then (store_octet_string (getslice payload (i' + 1) (i' + 1 + len)) len result)
               (\<lambda>result. Inr (Continue (i' + 1 + len) result u32_values))
       else if ?tag = 0x06 then
         if i' + 4 > length payload then Inr Break
         else and_then (unpack_be 4 (getslice payload i' (i' + 4))) (\<lambda>val.
           Inr (Continue (i' + 4) result (u32_values @ [val])))
       else if ?tag = 0x10 then
         if i' + 2 > length payload then Inr Break
         else and_then (unpack_be 2 (getslice payload i' (i' + 2))) (\<lambda>val.
           and_then (setdefault_append result ''u16_values'' (VInt val)) (\<lambda>result.
             Inr (Continue (i' + 2) result u32_values)))
       else if ?tag = 0x0F \<or> ?tag = 0x11 then
         if i' \<ge> length payload then Inr Break
         else Inr (Continue (i' + 1) result u32_values)
       else Inr Break)"
    using assms by (simp add: parse_tlv_step_def Let_def)
  show ?thesis
  proof (cases "Suc i < length payload")
    case False
    then have "?bs = []" by simp
    with False show ?thesis
      by (simp add: step d Let_def)
  next
    case True
    let ?n = "payload ! Suc i"
    let ?rest = "drop (Suc (Suc i)) payload"
    have d2: "?bs = ?n # ?rest" using True by (rule drop_Cons_nth)
    have len: "length ?rest = length payload - Suc (Suc i)" by simp
    consider (struct) "?tag = 0x02" | (octet) "?tag = 0x09" | (u32) "?tag = 0x06"
      | (u16) "?tag = 0x10" | (small) "?tag = 0x0F \<or> ?tag = 0x11"
      | (other) "?tag \<noteq> 0x02" "?tag \<noteq> 0x09" "?tag \<noteq> 0x06" "?tag \<noteq> 0x10" "?tag \<noteq> 0x0F" "?tag \<noteq> 0x11"
      by blast
    then show ?thesis
    proof cases
      case struct
      with True show ?thesis by (simp add: step d d2 Let_def)
    next
      case octet
      show ?thesis
      proof (cases "unat ?n \<le> length ?rest")
        case False
        with True have "length payload < Suc (Suc (i + unat ?n))" by simp
        with False True octet show ?thesis by (simp add: step d d2 Let_def)
      next
        case fits: True
        then have "getslice payload (Suc (Suc i)) (Suc (Suc i) + unat ?n) = take (unat ?n) ?rest"
          by (simp add: getslice_def)
        moreover have "length payload - (length payload - Suc (Suc i) - unat ?n) = Suc (Suc i) + unat ?n"
          using fits True by simp
        moreover from fits True have "\<not> length payload < Suc (Suc (i + unat ?n))" by simp
        ultimately show ?thesis
          using True octet fits
          by (simp add: step d d2 Let_def min_absorb2 and_then_assoc add.commute)
      qed
    next
      case u32
      show ?thesis
      proof (cases "4 \<le> length ?bs")
        case False
        then have "length payload < 5 + i" by simp
        with False True u32 show ?thesis by (simp add: step d Let_def)
      next
        case fits: True
        then have le: "Suc i + 4 \<le> length payload" by simp
        then have "\<not> length payload < 5 + i"
          and "length payload - (length payload - Suc i - 4) = 5 + i" by simp_all
        with unpack_be_getslice [OF le] fits True u32 show ?thesis
          by (simp add: step d Let_def)
      qed
    next
      case u16
      show ?thesis
      proof (cases "2 \<le> length ?bs")
        case False
        then have "length payload < 3 + i" by simp
        with False True u16 show ?thesis by (simp add: step d Let_def)
      next
        case fits: True
        then have le: "Suc i + 2 \<le> length payload" by simp
        then have "\<not> length payload < 3 + i"
          and "length payload - (length payload - Suc i - 2) = Suc (Suc (Suc i))" by simp_all
        with unpack_be_getslice [OF le] fits True u16 show ?thesis
          by (cases "setdefault_append result ''u16_values''
                (VInt (int_from_bytes_big (take 2 (drop (Suc i) payload))))")
            (simp_all add: step d Let_def)
      qed
    next
      case small
      with True show ?thesis by (auto simp: step d d2 Let_def)
    next
      case other
      then show ?thesis by (simp add: step d Let_def)
    qed
  qed
qed

lemma elements_Nil [simp]: "elements [] = []"
  by (simp add: elements.simps)

lemma unparsed_Nil [simp]: "unparsed [] = []"
  by (simp add: unparsed.simps)

lemma parse_tlv_loop_elements:
  "i \<le> length payload \<Longrightarrow>
   parse_tlv_loop payload i result u32_values
     = apply_elements (elements (drop i payload)) result u32_values"
proof (induction payload i result u32_values rule: parse_tlv_loop.induct)
  case (1 payload i result u32_values)
  show ?case
  proof (cases "i < length payload")
    case False
    then show ?thesis by (simp add: parse_tlv_loop.simps)
  next
    case inb: True
    note step = parse_tlv_step_next_element [OF inb, of result u32_values]
    show ?thesis
    proof (cases "next_element (drop i payload)")
      case None
      with inb step show ?thesis
        by (simp add: parse_tlv_loop.simps [of payload i] elements.simps [of "drop i payload"])
    next
      case (Some er)
      obtain e rest where er: "er = (e, rest)" by (cases er)
      from next_element_suffix [of "drop i payload" e rest] Some er
      obtain k where k: "0 < k" "k \<le> length payload - i" "rest = drop (i + k) payload"
        by (auto simp: add.commute)
      with inb have i': "length payload - length rest = i + k" by simp
      show ?thesis
      proof (cases "apply_element e result u32_values")
        case (Inl err)
        with inb step Some er show ?thesis
          by (simp add: parse_tlv_loop.simps [of payload i] elements.simps [of "drop i payload"])
      next
        case (Inr ru)
        obtain r u where ru: "ru = (r, u)" by (cases ru)
        from step Some er Inr ru i'
        have st: "parse_tlv_step payload i result u32_values = Inr (Continue (i + k) r u)"
          by simp
        from k inb have "i + k \<le> length payload" by simp
        with "1.IH" [OF inb st refl] have
          "parse_tlv_loop payload (i + k) r u = apply_elements (elements (drop (i + k) payload)) r u"
          by simp
        with inb st Some er Inr ru k(3) show ?thesis
          by (simp add: parse_tlv_loop.simps [of payload i] elements.simps [of "drop i payload"])
      qed
    qed
  qed
qed

lemma store_octet_string_pure:
  "list_valued result ''strings'' \<Longrightarrow>
   store_octet_string value len result =
     Inr (case safe_parse_timestamp value of
            Some ts \<Rightarrow>
              if ts \<noteq> [] then setitem result ''timestamp'' (VStr ts)
              else if len = 7 then
                setitem result ''strings''
                  (VList (list_of result ''strings'' @ [VStr (decode_ignore value)]))
              else if len = 16 then
                setitem result ''meter_id'' (VStr (strip (decode_ignore value) [0]))
              else if len = 8 then setitem result ''meter_model'' (VStr (decode_ignore value))
              else result
          | None \<Rightarrow>
              if len = 7 then
                setitem result ''strings''
                  (VList (list_of result ''strings'' @ [VStr (decode_ignore value)]))
              else if len = 16 then
                setitem result ''meter_id'' (VStr (strip (decode_ignore value) [0]))
              else if len = 8 then setitem result ''meter_model'' (VStr (decode_ignore value))
              else result)"
  by (simp add: store_octet_string_def store_by_length_pure split: option.splits)

lemma store_octet_string_inv:
  assumes "list_valued result ''strings''" and "list_valued result ''u16_values''"
  shows "\<exists>r. store_octet_string value len result = Inr r
             \<and> list_valued r ''strings'' \<and> list_valued r ''u16_values''"
  using assms
  by (simp add: store_octet_string_pure list_valued_setitem split: option.splits)

lemma next_element_u32_range:
  "next_element bs = Some (DoubleLongUnsigned x, rest) \<Longrightarrow> 0 \<le> x \<and> x < 2 ^ 32"
proof -
  assume ne: "next_element bs = Some (DoubleLongUnsigned x, rest)"
  then obtain tag bs' where bs: "bs = tag # bs'" by (cases bs) auto
  with ne have "x = int_from_bytes_big (take 4 bs')" and "4 \<le> length bs'"
    by (auto split: if_splits list.splits)
  with int_from_bytes_big_bounds [of "take 4 bs'"] show ?thesis by (simp add: min_absorb2)
qed

lemma u32_range_snoc: "u32_range (vs @ [v]) = (u32_range vs \<and> 0 \<le> v \<and> v < 2 ^ 32)"
  by (auto simp: u32_range_def)

lemma apply_element_inv:
  assumes "next_element bs = Some (e, rest)" and "walk_inv result u32_values"
  shows "\<exists>r u. apply_element e result u32_values = Inr (r, u) \<and> walk_inv r u"
proof (cases e)
  case (OctetString v)
  with assms(2) store_octet_string_inv [of result v "length v"] show ?thesis
    by (auto simp: walk_inv_def)
next
  case (DoubleLongUnsigned x)
  with assms next_element_u32_range [of bs x rest] show ?thesis
    by (simp add: walk_inv_def u32_range_snoc)
next
  case (LongUnsigned x)
  with assms(2) show ?thesis
    by (simp add: walk_inv_def setdefault_append_list_valued list_valued_setitem)
qed (use assms(2) in simp_all)

lemma apply_elements_total:
  "walk_inv result u32_values \<Longrightarrow>
   \<exists>r u. apply_elements (elements bs) result u32_values = Inr (r, u) \<and> walk_inv r u"
proof (induction bs arbitrary: result u32_values rule: elements.induct)
  case (1 bs)
  show ?case
  proof (cases "next_element bs")
    case None
    with "1.prems" show ?thesis by (simp add: elements.simps [of bs])
  next
    case (Some er)
    obtain e rest where er: "er = (e, rest)" by (cases er)
    from apply_element_inv [of bs e rest result u32_values] Some er "1.prems"
    obtain r u where ru: "apply_element e result u32_values = Inr (r, u)" "walk_inv r u"
      by auto
    from "1.IH" [OF Some er [symmetric] ru(2)] ru(1) Some er show ?thesis
      by (simp add: elements.simps [of bs])
  qed
qed

lemma walk_inv_init: "walk_inv [] []"
  by (simp add: walk_inv_def list_valued_def u32_range_def)

lemma parse_tlv_loop_total:
  "\<exists>result u32_values. parse_tlv_loop payload 0 [] [] = Inr (result, u32_values)
      \<and> walk_inv result u32_values"
  using apply_elements_total [OF walk_inv_init, of payload]
  by (simp add: parse_tlv_loop_elements)

section \<open>The field mapping never raises on the values of a walk\<close>

lemma u32_range_nth: "u32_range vs \<Longrightarrow> k < length vs \<Longrightarrow> 0 \<le> vs ! k \<and> vs ! k < 2 ^ 53"
proof -
  assume "u32_range vs" and "k < length vs"
  then have "0 \<le> vs ! k \<and> vs ! k < 2 ^ 32" by (simp add: u32_range_def list_all_length)
  moreover have "(2::int) ^ 32 \<le> 2 ^ 53" by simp
  ultimately show ?thesis by linarith
qed

lemma set_quotient_exact:
  "0 \<le> v \<Longrightarrow> v < 2 ^ 53 \<Longrightarrow> x \<noteq> 0 \<Longrightarrow>
   set_quotient result key v x = Inr (setitem result key (VFloat (binary64 (of_int v / x))))"
  by (simp add: set_quotient_def truediv_exact)

lemma map_active_power_pure:
  "map_active_power result vs =
     Inr (if vs \<noteq> [] then setitem result ''active_power_import'' (VInt (vs ! 0)) else result)"
  by (simp add: map_active_power_def)

lemma map_tail_pure:
  assumes "u32_range vs"
  shows "map_tail result vs =
     Inr (if 9 \<le> length vs then
            let tail = drop (length vs - 9) vs in
            setitem (setitem (setitem (setitem (setitem (setitem result
              ''current_l1'' (quotient_item (tail ! 3) 1000))
              ''current_l2'' (quotient_item (tail ! 4) 1000))
              ''current_l3'' (quotient_item (tail ! 5) 1000))
              ''voltage_l1'' (quotient_item (tail ! 6) 10))
              ''voltage_l2'' (quotient_item (tail ! 7) 10))
              ''voltage_l3'' (quotient_item (tail ! 8) 10)
          else result)"
proof (cases "9 \<le> length vs")
  case False
  then show ?thesis by (simp add: map_tail_def)
next
  case True
  let ?tail = "drop (length vs - 9) vs"
  from True have len: "length ?tail = 9" by simp
  have r: "0 \<le> ?tail ! k \<and> ?tail ! k < 2 ^ 53" if "k < 9" for k
  proof -
    from that True have "?tail ! k = vs ! (length vs - 9 + k)" by simp
    moreover from that True have "length vs - 9 + k < length vs" by simp
    ultimately show ?thesis using u32_range_nth [OF assms] by simp
  qed
  from True len r [of 3] r [of 4] r [of 5] r [of 6] r [of 7] r [of 8] show ?thesis
    by (simp add: map_tail_def Let_def set_quotient_exact quotient_item_def)
qed

lemma map_import_total_pure:
  "u32_range vs \<Longrightarrow>
   map_import_total result vs =
     Inr (case List.find (\<lambda>v. 100000 < v) vs of
            None \<Rightarrow> result
          | Some v \<Rightarrow> setitem result ''active_import_total'' (quotient_item v 1000))"
proof (induction vs)
  case Nil
  then show ?case by simp
next
  case (Cons v vs)
  from Cons.prems have v: "0 \<le> v" "v < 2 ^ 53" using u32_range_nth [of "v # vs" 0] by simp_all
  from Cons.prems have "u32_range vs" by (simp add: u32_range_def)
  with Cons.IH v show ?case by (simp add: set_quotient_exact quotient_item_def)
qed

lemma map_fields_lookup:
  assumes "u32_range vs"
  shows "\<exists>d. map_fields result vs = Inr d
    \<and> map_of d ''active_power_import''
        = (if vs \<noteq> [] then Some (VInt (vs ! 0)) else map_of result ''active_power_import'')
    \<and> (9 \<le> length vs \<longrightarrow>
         map_of d ''current_l1'' = Some (quotient_item (drop (length vs - 9) vs ! 3) 1000)
       \<and> map_of d ''current_l2'' = Some (quotient_item (drop (length vs - 9) vs ! 4) 1000)
       \<and> map_of d ''current_l3'' = Some (quotient_item (drop (length vs - 9) vs ! 5) 1000)
       \<and> map_of d ''voltage_l1'' = Some (quotient_item (drop (length vs - 9) vs ! 6) 10)
       \<and> map_of d ''voltage_l2'' = Some (quotient_item (drop (length vs - 9) vs ! 7) 10)
       \<and> map_of d ''voltage_l3'' = Some (quotient_item (drop (length vs - 9) vs ! 8) 10))
    \<and> map_of d ''active_import_total''
        = (case List.find (\<lambda>v. 100000 < v) vs of
             None \<Rightarrow> map_of result ''active_import_total''
           | Some v \<Rightarrow> Some (quotient_item v 1000))
    \<and> (\<forall>k. k \<notin> {''active_power_import'', ''current_l1'', ''current_l2'', ''current_l3'',
                  ''voltage_l1'', ''voltage_l2'', ''voltage_l3'', ''active_import_total''}
           \<longrightarrow> map_of d k = map_of result k)"
  by (simp add: map_fields_def map_active_power_pure map_tail_pure [OF assms]
      map_import_total_pure [OF assms] Let_def split: option.splits)

lemma setdefault_append_lookup:
  "setdefault_append d k x = Inr d' \<Longrightarrow> k' \<noteq> k \<Longrightarrow> map_of d' k' = map_of d k'"
  by (auto simp: setdefault_append_def update_conv' split: option.splits pyval.splits)

lemma store_octet_string_frame:
  assumes "store_octet_string value len result = Inr r"
    and "k \<notin> {''timestamp'', ''strings'', ''meter_id'', ''meter_model''}"
  shows "map_of r k = map_of result k"
  using assms
  by (auto simp: store_octet_string_def store_by_length_def
      split: option.splits if_splits dest: setdefault_append_lookup)

lemma apply_element_frame:
  assumes "apply_element e result u32_values = Inr (r, u)"
    and "k \<notin> {''timestamp'', ''strings'', ''meter_id'', ''meter_model'', ''u16_values''}"
  shows "map_of r k = map_of result k"
proof (cases e)
  case (OctetString v)
  with assms show ?thesis
    by (cases "store_octet_string v (length v) result") (auto dest: store_octet_string_frame)
next
  case (LongUnsigned x)
  with assms show ?thesis
    by (cases "setdefault_append result ''u16_values'' (VInt x)")
      (auto dest: setdefault_append_lookup)
qed (use assms in auto)

lemma apply_elements_frame:
  assumes "apply_elements es result u32_values = Inr (r, u)"
    and "k \<notin> {''timestamp'', ''strings'', ''meter_id'', ''meter_model'', ''u16_values''}"
  shows "map_of r k = map_of result k"
  using assms(1)
proof (induction es arbitrary: result u32_values)
  case Nil
  then show ?case by simp
next
  case (Cons e es)
  show ?case
  proof (cases "apply_element e result u32_values")
    case (Inl err)
    with Cons.prems show ?thesis by simp
  next
    case (Inr ru)
    obtain r' u' where ru: "ru = (r', u')" by (cases ru)
    with Inr Cons.prems have "apply_elements es r' u' = Inr (r, u)" by simp
    from Cons.IH [OF this] apply_element_frame [OF Inr [unfolded ru] assms(2)]
    show ?thesis by simp
  qed
qed

lemma parse_tlv_loop_walk_inv:
  "parse_tlv_loop payload 0 [] [] = Inr (result, u32_values) \<Longrightarrow> walk_inv result u32_values"
  using parse_tlv_loop_total [of payload] by auto

lemma parse_tlv_loop_frame:
  assumes "parse_tlv_loop payload 0 [] [] = Inr (result, u32_values)"
    and "k \<notin> {''timestamp'', ''strings'', ''meter_id'', ''meter_model'', ''u16_values''}"
  shows "map_of result k = None"
  using apply_elements_frame [OF _ assms(2), of "elements payload" "[]" "[]" result u32_values]
    assms(1)
  by (simp add: parse_tlv_loop_elements)

section \<open>The mapped fields\<close>

lemma parse_tlv_of_loop:
  "parse_tlv_loop payload 0 [] [] = Inr (result, u32_values) \<Longrightarrow>
   parse_tlv payload = map_fields result u32_values"
  by (simp add: parse_tlv_def)

text \<open>
  Claim C4. In every parse, with \<open>u32_values\<close> the list the walk has accumulated: when it is
  not empty the output maps \<^verbatim>\<open>active_power_import\<close> to its first element unchanged, and when it
  has at least 9 elements, \<open>tail\<close> being the last 9, the output maps \<^verbatim>\<open>current_l1/l2/l3\<close> to
  \<open>tail[3]\<close>, \<open>tail[4]\<close>, \<open>tail[5]\<close> divided by \<open>1000.0\<close> and \<^verbatim>\<open>voltage_l1/l2/l3\<close> to \<open>tail[6]\<close>,
  \<open>tail[7]\<close>, \<open>tail[8]\<close> divided by \<open>10.0\<close> (the nearest floats to the quotients).
\<close>

theorem tail_fields:
  assumes "parse_tlv_loop payload 0 [] [] = Inr (result, u32_values)"
  shows "\<exists>d. parse_tlv payload = Inr d
    \<and> (u32_values \<noteq> [] \<longrightarrow> map_of d ''active_power_import'' = Some (VInt (u32_values ! 0)))
    \<and> (9 \<le> length u32_values \<longrightarrow>
         (let tail = drop (length u32_values - 9) u32_values in
            map_of d ''current_l1'' = Some (VFloat (binary64 (of_int (tail ! 3) / 1000)))
          \<and> map_of d ''current_l2'' = Some (VFloat (binary64 (of_int (tail ! 4) / 1000)))
          \<and> map_of d ''current_l3'' = Some (VFloat (binary64 (of_int (tail ! 5) / 1000)))
          \<and> map_of d ''voltage_l1'' = Some (VFloat (binary64 (of_int (tail ! 6) / 10)))
          \<and> map_of d ''voltage_l2'' = Some (VFloat (binary64 (of_int (tail ! 7) / 10)))
          \<and> map_of d ''voltage_l3'' = Some (VFloat (binary64 (of_int (tail ! 8) / 10)))))"
proof -
  from parse_tlv_loop_walk_inv [OF assms] have "u32_range u32_values" by (simp add: walk_inv_def)
  from map_fields_lookup [OF this, of result] obtain d where
    d: "map_fields result u32_values = Inr d"
    and p: "map_of d ''active_power_import''
        = (if u32_values \<noteq> [] then Some (VInt (u32_values ! 0))
           else map_of result ''active_power_import'')"
    and t: "9 \<le> length u32_values \<longrightarrow>
         map_of d ''current_l1'' = Some (quotient_item (drop (length u32_values - 9) u32_values ! 3) 1000)
       \<and> map_of d ''current_l2'' = Some (quotient_item (drop (length u32_values - 9) u32_values ! 4) 1000)
       \<and> map_of d ''current_l3'' = Some (quotient_item (drop (length u32_values - 9) u32_values ! 5) 1000)
       \<and> map_of d ''voltage_l1'' = Some (quotient_item (drop (length u32_values - 9) u32_values ! 6) 10)
       \<and> map_of d ''voltage_l2'' = Some (quotient_item (drop (length u32_values - 9) u32_values ! 7) 10)
       \<and> map_of d ''voltage_l3'' = Some (quotient_item (drop (length u32_values - 9) u32_values ! 8) 10)"
    by blast
  from d parse_tlv_of_loop [OF assms] have "parse_tlv payload = Inr d" by simp
  moreover from p have "u32_values \<noteq> [] \<longrightarrow> map_of d ''active_power_import'' = Some (VInt (u32_values ! 0))"
    by simp
  moreover from t have "9 \<le> length u32_values \<longrightarrow>
         (let tail = drop (length u32_values - 9) u32_values in
            map_of d ''current_l1'' = Some (VFloat (binary64 (of_int (tail ! 3) / 1000)))
          \<and> map_of d ''current_l2'' = Some (VFloat (binary64 (of_int (tail ! 4) / 1000)))
          \<and> map_of d ''current_l3'' = Some (VFloat (binary64 (of_int (tail ! 5) / 1000)))
          \<and> map_of d ''voltage_l1'' = Some (VFloat (binary64 (of_int (tail ! 6) / 10)))
          \<and> map_of d ''voltage_l2'' = Some (VFloat (binary64 (of_int (tail ! 7) / 10)))
          \<and> map_of d ''voltage_l3'' = Some (VFloat (binary64 (of_int (tail ! 8) / 10))))"
    by (simp only: quotient_item_def Let_def)
  ultimately show ?thesis by blast
qed

theorem tail_fields_witness:
  "\<exists>d. parse_tlv [0x06, 0, 0, 0x01, 0xF4, 0x06, 0, 0, 0, 1, 0x06, 0, 0, 0, 2,
                    0x06, 0, 0, 0, 10, 0x06, 0, 0, 0, 20, 0x06, 0, 0, 0, 30,
                    0x06, 0, 0, 0x08, 0xFC, 0x06, 0, 0, 0x09, 0x06, 0x06, 0, 0, 0x09, 0x10] = Inr d
    \<and> map_of d ''active_power_import'' = Some (VInt 500)
    \<and> map_of d ''current_l1'' = Some (VFloat (binary64 (1 / 100)))
    \<and> map_of d ''current_l2'' = Some (VFloat (binary64 (2 / 100)))
    \<and> map_of d ''current_l3'' = Some (VFloat (binary64 (3 / 100)))
    \<and> map_of d ''voltage_l1'' = Some (VFloat 230)
    \<and> map_of d ''voltage_l2'' = Some (VFloat 231)
    \<and> map_of d ''voltage_l3'' = Some (VFloat 232)"
proof -
  let ?p = "[0x06, 0, 0, 0x01, 0xF4, 0x06, 0, 0, 0, 1, 0x06, 0, 0, 0, 2,
             0x06, 0, 0, 0, 10, 0x06, 0, 0, 0, 20, 0x06, 0, 0, 0, 30,
             0x06, 0, 0, 0x08, 0xFC, 0x06, 0, 0, 0x09, 0x06, 0x06, 0, 0, 0x09, 0x10] :: byte list"
  have loop: "parse_tlv_loop ?p 0 [] [] = Inr ([], [500, 1, 2, 10, 20, 30, 2300, 2310, 2320])"
    by code_simp
  have v: "binary64 230 = 230" "binary64 231 = 231" "binary64 232 = 232"
    using binary64_of_int_exact [of 230] binary64_of_int_exact [of 231]
      binary64_of_int_exact [of 232] by simp_all
  from tail_fields [OF loop] obtain d where d: "parse_tlv ?p = Inr d"
    and p: "map_of d ''active_power_import'' = Some (VInt 500)"
    and t: "map_of d ''current_l1'' = Some (VFloat (binary64 (1 / 100)))"
      "map_of d ''current_l2'' = Some (VFloat (binary64 (2 / 100)))"
      "map_of d ''current_l3'' = Some (VFloat (binary64 (3 / 100)))"
      "map_of d ''voltage_l1'' = Some (VFloat 230)"
      "map_of d ''voltage_l2'' = Some (VFloat 231)"
      "map_of d ''voltage_l3'' = Some (VFloat 232)"
    by (auto simp: v Let_def)
  then show ?thesis by blast
qed

text \<open>
  Claim C5. In every parse, with \<open>u32_values\<close> the list the walk has accumulated: if an
  element is greater than 100000, the output maps \<^verbatim>\<open>active_import_total\<close> to the first such
  element, in the order of the list, divided by \<open>1000.0\<close>; if every element is at most
  100000, the output has no key \<^verbatim>\<open>active_import_total\<close>. (In the witness 150000 gives 150.0.)
\<close>

theorem import_total_first_above:
  assumes "parse_tlv_loop payload 0 [] [] = Inr (result, u32_values)"
  shows "\<exists>d. parse_tlv payload = Inr d
    \<and> (\<forall>k < length u32_values.
          100000 < u32_values ! k \<and> (\<forall>j < k. u32_values ! j \<le> 100000) \<longrightarrow>
          map_of d ''active_import_total''
            = Some (VFloat (binary64 (of_int (u32_values ! k) / 1000))))
    \<and> ((\<forall>v \<in> set u32_values. v \<le> 100000) \<longrightarrow> map_of d ''active_import_total'' = None)"
proof -
  from parse_tlv_loop_walk_inv [OF assms] have "u32_range u32_values" by (simp add: walk_inv_def)
  from map_fields_lookup [OF this, of result] obtain d where
    d: "map_fields result u32_values = Inr d"
    and t: "map_of d ''active_import_total''
        = (case List.find (\<lambda>v. 100000 < v) u32_values of
             None \<Rightarrow> map_of result ''active_import_total''
           | Some v \<Rightarrow> Some (quotient_item v 1000))"
    by blast
  have absent: "map_of result ''active_import_total'' = None"
    by (rule parse_tlv_loop_frame [OF assms]) simp
  from d parse_tlv_of_loop [OF assms] have "parse_tlv payload = Inr d" by simp
  moreover have "map_of d ''active_import_total''
            = Some (VFloat (binary64 (of_int (u32_values ! k) / 1000)))"
    if "k < length u32_values" "100000 < u32_values ! k" "\<forall>j < k. u32_values ! j \<le> 100000" for k
  proof -
    from that have "List.find (\<lambda>v. 100000 < v) u32_values = Some (u32_values ! k)"
      by (subst find_Some_iff) (auto simp: not_less intro!: exI [of _ k])
    with t show ?thesis by (simp add: quotient_item_def)
  qed
  moreover have "map_of d ''active_import_total'' = None" if "\<forall>v \<in> set u32_values. v \<le> 100000"
  proof -
    from that have "List.find (\<lambda>v. 100000 < v) u32_values = None"
      by (auto simp: find_None_iff not_less)
    with t absent show ?thesis by simp
  qed
  ultimately show ?thesis by blast
qed

theorem import_total_first_above_witness:
  "(\<exists>d. parse_tlv [0x06, 0, 0, 0x01, 0xF4, 0x06, 0, 0x02, 0x49, 0xF0, 0x06, 0, 0x03, 0x0D, 0x40] = Inr d
       \<and> map_of d ''active_import_total'' = Some (VFloat 150))
   \<and> (\<exists>d. parse_tlv [0x06, 0, 0, 0x01, 0xF4, 0x06, 0, 0x01, 0x86, 0xA0] = Inr d
       \<and> map_of d ''active_import_total'' = None)"
proof
  let ?p = "[0x06, 0, 0, 0x01, 0xF4, 0x06, 0, 0x02, 0x49, 0xF0, 0x06, 0, 0x03, 0x0D, 0x40] :: byte list"
  have loop: "parse_tlv_loop ?p 0 [] [] = Inr ([], [500, 150000, 200000])"
    by code_simp
  have v: "binary64 150 = 150" using binary64_of_int_exact [of 150] by simp
  from import_total_first_above [OF loop] obtain d where d: "parse_tlv ?p = Inr d"
    and t: "\<forall>k < length [500, 150000, 200000 :: int].
          100000 < [500, 150000, 200000 :: int] ! k
          \<and> (\<forall>j < k. [500, 150000, 200000 :: int] ! j \<le> 100000) \<longrightarrow>
          map_of d ''active_import_total''
            = Some (VFloat (binary64 (of_int ([500, 150000, 200000] ! k) / 1000)))"
    by blast
  from t [rule_format, of 1] have "map_of d ''active_import_total'' = Some (VFloat 150)"
    by (simp add: v)
  with d show "\<exists>d. parse_tlv ?p = Inr d \<and> map_of d ''active_import_total'' = Some (VFloat 150)"
    by blast
next
  let ?p = "[0x06, 0, 0, 0x01, 0xF4, 0x06, 0, 0x01, 0x86, 0xA0] :: byte list"
  have loop: "parse_tlv_loop ?p 0 [] [] = Inr ([], [500, 100000])"
    by code_simp
  from import_total_first_above [OF loop]
  show "\<exists>d. parse_tlv ?p = Inr d \<and> map_of d ''active_import_total'' = None"
    by auto
qed

text \<open>
  Claim C9. In every parse whose \<open>u32_values\<close> is not empty and starts with an element greater
  than 100000, the output holds that element twice: unchanged under \<^verbatim>\<open>active_power_import\<close>
  and divided by \<open>1000.0\<close> under \<^verbatim>\<open>active_import_total\<close>.
\<close>

theorem power_and_total_from_first:
  assumes "parse_tlv_loop payload 0 [] [] = Inr (result, u32_values)"
    and "u32_values \<noteq> []" and "100000 < u32_values ! 0"
  shows "\<exists>d. parse_tlv payload = Inr d
    \<and> map_of d ''active_power_import'' = Some (VInt (u32_values ! 0))
    \<and> map_of d ''active_import_total''
        = Some (VFloat (binary64 (of_int (u32_values ! 0) / 1000)))"
proof -
  from parse_tlv_loop_walk_inv [OF assms(1)] have "u32_range u32_values"
    by (simp add: walk_inv_def)
  from map_fields_lookup [OF this, of result] obtain d where
    d: "map_fields result u32_values = Inr d"
    and p: "map_of d ''active_power_import''
        = (if u32_values \<noteq> [] then Some (VInt (u32_values ! 0))
           else map_of result ''active_power_import'')"
    and t: "map_of d ''active_import_total''
        = (case List.find (\<lambda>v. 100000 < v) u32_values of
             None \<Rightarrow> map_of result ''active_import_total''
           | Some v \<Rightarrow> Some (quotient_item v 1000))"
    by blast
  from assms(2,3) have "List.find (\<lambda>v. 100000 < v) u32_values = Some (u32_values ! 0)"
    by (cases u32_values) simp_all
  with t have "map_of d ''active_import_total''
        = Some (VFloat (binary64 (of_int (u32_values ! 0) / 1000)))"
    by (simp add: quotient_item_def)
  moreover from p assms(2) have "map_of d ''active_power_import'' = Some (VInt (u32_values ! 0))"
    by simp
  moreover from d parse_tlv_of_loop [OF assms(1)] have "parse_tlv payload = Inr d" by simp
  ultimately show ?thesis by blast
qed

theorem power_and_total_from_first_witness:
  "\<exists>d. parse_tlv [0x06, 0, 0x02, 0x49, 0xF0] = Inr d
     \<and> map_of d ''active_power_import'' = Some (VInt 150000)
     \<and> map_of d ''active_import_total'' = Some (VFloat 150)"
proof -
  let ?p = "[0x06, 0, 0x02, 0x49, 0xF0] :: byte list"
  have loop: "parse_tlv_loop ?p 0 [] [] = Inr ([], [150000])"
    by code_simp
  have v: "binary64 150 = 150" using binary64_of_int_exact [of 150] by simp
  from power_and_total_from_first [OF loop] show ?thesis
    by (simp add: v)
qed

section \<open>The entry point: anchors in order, and no exception\<close>

lemma parse_tlv_total: "\<exists>d. parse_tlv payload = Inr d"
proof -
  from parse_tlv_loop_total [of payload] obtain result u32_values
    where l: "parse_tlv_loop payload 0 [] [] = Inr (result, u32_values)"
      and "walk_inv result u32_values" by blast
  then have "u32_range u32_values" by (simp add: walk_inv_def)
  from map_fields_lookup [OF this, of result] parse_tlv_of_loop [OF l] show ?thesis
    by auto
qed

lemma try_anchor_total:
  "\<exists>d. otherwise = Inr d \<Longrightarrow> \<exists>d. try_anchor data anchor otherwise = Inr d"
  using parse_tlv_total [of "drop (nat (find_sub data anchor)) data"]
  by (auto simp: try_anchor_def Let_def)

text \<open>
  Claim C1. For every byte sequence, \<^verbatim>\<open>decode_tibber_pulse_message\<close> returns a mapping and
  raises nothing. Every loop of the decoder is a total function here (the two \<^verbatim>\<open>while\<close> loops
  by a termination proof on the distance of the cursor from the end of the buffer), so the
  call terminates; that the value is \<open>Inr d\<close> says no exception leaves it, whichever operation
  (indexing, \<^verbatim>\<open>struct.unpack\<close>, \<^verbatim>\<open>append\<close> on a dictionary entry, conversion to float) could
  have raised one.
\<close>

theorem decode_never_raises: "\<exists>d. decode_tibber_pulse_message payload = Inr d"
proof (cases "payload = []")
  case True
  then show ?thesis by (simp add: decode_tibber_pulse_message_def)
next
  case False
  have "\<exists>d. try_anchor (unescaped payload) [0x02, 0x0D, 0x09, 0x07]
              (try_anchor (unescaped payload) [0x09, 0x0C, 0x07] (Inr [])) = Inr d"
    by (intro try_anchor_total) simp
  with False show ?thesis
    by (simp add: decode_tibber_pulse_message_def unescape_hdlc_def unescape_hdlc_loop_unescaped)
qed







section \<open>Halting on truncated elements and unknown tags\<close>

lemma halting_next_element: "halting bs \<Longrightarrow> next_element bs = None"
  by (cases bs) (auto simp: halting_def recognized_tag_def split: list.splits)

lemma next_element_append:
  "next_element bs = Some (e, r) \<Longrightarrow> next_element (bs @ xs) = Some (e, r @ xs)"
  by (cases bs) (auto split: if_splits list.splits)

lemma elements_append_complete:
  "unparsed pre = [] \<Longrightarrow> next_element rest = None \<Longrightarrow> elements (pre @ rest) = elements pre"
proof (induction pre rule: unparsed.induct)
  case (1 bs)
  show ?case
  proof (cases "next_element bs")
    case None
    with "1.prems"(1) have "bs = []" by (simp add: unparsed.simps [of bs])
    with "1.prems"(2) show ?thesis by (simp add: elements.simps [of rest])
  next
    case (Some er)
    obtain e r where er: "er = (e, r)" by (cases er)
    from "1.prems"(1) Some er have "unparsed r = []" by (simp add: unparsed.simps [of bs])
    from "1.IH" [OF Some er [symmetric] this "1.prems"(2)]
      next_element_append [of bs e r rest] Some er
    show ?thesis
      by (simp add: elements.simps [of bs] elements.simps [of "bs @ rest"])
  qed
qed

text \<open>
  Claim C6. Let the buffer be \<open>pre @ rest\<close>, where \<open>pre\<close> consists of complete recognized
  elements (the walk leaves nothing of it unparsed) and \<open>rest\<close> starts with a tag that is not
  recognized or with an element whose declared length exceeds what is left. Then the
  iteration at that point ends in \<^verbatim>\<open>break\<close>, whatever has been accumulated; the walk ends with
  the dictionary and the values accumulated from \<open>pre\<close>; and \<^verbatim>\<open>parse_tlv\<close> returns, without
  raising, what it returns for \<open>pre\<close> alone.
\<close>

theorem halt_keeps_accumulated:
  assumes "unparsed pre = []" and "halting rest"
  shows "parse_tlv_step (pre @ rest) (length pre) result u32_values = Inr Break
    \<and> parse_tlv_loop (pre @ rest) 0 [] [] = parse_tlv_loop pre 0 [] []
    \<and> parse_tlv (pre @ rest) = parse_tlv pre
    \<and> (\<exists>d. parse_tlv (pre @ rest) = Inr d)"
proof -
  from assms(2) have ne: "next_element rest = None" by (rule halting_next_element)
  from assms(2) have "rest \<noteq> []" by (auto simp: halting_def)
  then have "length pre < length (pre @ rest)" by simp
  from parse_tlv_step_next_element [OF this, of result u32_values] ne
  have "parse_tlv_step (pre @ rest) (length pre) result u32_values = Inr Break" by simp
  moreover from elements_append_complete [OF assms(1) ne]
  have l: "parse_tlv_loop (pre @ rest) 0 [] [] = parse_tlv_loop pre 0 [] []"
    by (simp add: parse_tlv_loop_elements)
  moreover from l have "parse_tlv (pre @ rest) = parse_tlv pre" by (simp add: parse_tlv_def)
  moreover from parse_tlv_total obtain d where "parse_tlv (pre @ rest) = Inr d" by blast
  ultimately show ?thesis by blast
qed

theorem halt_keeps_accumulated_witness:
  "parse_tlv ([0x09, 0x07, 0x4B, 0x46, 0x4D, 0x5F, 0x30, 0x30, 0x31, 0x06, 0, 0, 0x01, 0xF4]
              @ [0x09, 0x10, 0x41])
     = Inr [(''strings'', VList [VStr (ascii ''KFM_001'')]), (''active_power_import'', VInt 500)]
   \<and> parse_tlv ([0x09, 0x07, 0x4B, 0x46, 0x4D, 0x5F, 0x30, 0x30, 0x31, 0x06, 0, 0, 0x01, 0xF4]
              @ [0x55, 0x06, 0, 0, 0, 1])
     = Inr [(''strings'', VList [VStr (ascii ''KFM_001'')]), (''active_power_import'', VInt 500)]"
proof -
  let ?pre = "[0x09, 0x07, 0x4B, 0x46, 0x4D, 0x5F, 0x30, 0x30, 0x31, 0x06, 0, 0, 0x01, 0xF4] :: byte list"
  have u: "unparsed ?pre = []" by code_simp
  have p: "parse_tlv ?pre
     = Inr [(''strings'', VList [VStr (ascii ''KFM_001'')]), (''active_power_import'', VInt 500)]"
    by code_simp
  have h1: "halting [0x09, 0x10, 0x41]" by (simp add: halting_def)
  have h2: "halting [0x55, 0x06, 0, 0, 0, 1]" by (simp add: halting_def recognized_tag_def)
  from halt_keeps_accumulated [OF u h1, of "[]" "[]"] halt_keeps_accumulated [OF u h2, of "[]" "[]"] p
  show ?thesis by simp
qed

section \<open>Repeated elements: the last value, and the accumulated lists\<close>

lemma single_after_append: "single_after (single_after old xs) ys = single_after old (xs @ ys)"
  by (simp add: single_after_def)

lemma list_after_append: "list_after (list_after old xs) ys = list_after old (xs @ ys)"
  by (simp add: list_after_def)

lemma map_filter_Cons_append:
  "List.map_filter f (e # es) = List.map_filter f [e] @ List.map_filter f es"
  by (simp add: map_filter_simps split: option.splits)

lemma apply_element_effect:
  assumes "apply_element e result u32_values = Inr (r, u)"
    and "list_valued result ''strings''" and "list_valued result ''u16_values''"
  shows "map_of r ''timestamp''
        = single_after (map_of result ''timestamp'') (List.map_filter timestamp_of [e])
    \<and> map_of r ''meter_id''
        = single_after (map_of result ''meter_id'') (List.map_filter meter_id_of [e])
    \<and> map_of r ''meter_model''
        = single_after (map_of result ''meter_model'') (List.map_filter meter_model_of [e])
    \<and> map_of r ''strings''
        = list_after (map_of result ''strings'') (map VStr (List.map_filter string_of [e]))
    \<and> map_of r ''u16_values''
        = list_after (map_of result ''u16_values'') (map VInt (List.map_filter u16_of [e]))
    \<and> list_valued r ''strings'' \<and> list_valued r ''u16_values''"
proof (cases e)
  case (OctetString v)
  with assms show ?thesis
    by (auto simp: store_octet_string_pure single_after_def list_after_def map_filter_simps
        list_valued_setitem list_of_def split: option.splits if_splits)
next
  case (LongUnsigned x)
  with assms show ?thesis
    by (auto simp: setdefault_append_list_valued single_after_def list_after_def
        map_filter_simps list_valued_setitem list_of_def)
qed (use assms in \<open>auto simp: single_after_def list_after_def map_filter_simps\<close>)

lemma apply_elements_effect:
  assumes "apply_elements es result u32_values = Inr (r, u)"
    and "list_valued result ''strings''" and "list_valued result ''u16_values''"
  shows "map_of r ''timestamp''
        = single_after (map_of result ''timestamp'') (List.map_filter timestamp_of es)
    \<and> map_of r ''meter_id''
        = single_after (map_of result ''meter_id'') (List.map_filter meter_id_of es)
    \<and> map_of r ''meter_model''
        = single_after (map_of result ''meter_model'') (List.map_filter meter_model_of es)
    \<and> map_of r ''strings''
        = list_after (map_of result ''strings'') (map VStr (List.map_filter string_of es))
    \<and> map_of r ''u16_values''
        = list_after (map_of result ''u16_values'') (map VInt (List.map_filter u16_of es))"
  using assms
proof (induction es arbitrary: result u32_values)
  case Nil
  then show ?case by (simp add: single_after_def list_after_def map_filter_simps)
next
  case (Cons e es)
  show ?case
  proof (cases "apply_element e result u32_values")
    case (Inl err)
    with Cons.prems(1) show ?thesis by simp
  next
    case (Inr ru)
    obtain r1 u1 where ru: "ru = (r1, u1)" by (cases ru)
    note eff = apply_element_effect [OF Inr [unfolded ru] Cons.prems(2,3)]
    from Inr ru Cons.prems(1) have rest: "apply_elements es r1 u1 = Inr (r, u)" by simp
    from eff have lv: "list_valued r1 ''strings''" "list_valued r1 ''u16_values''" by simp_all
    note ih = Cons.IH [OF rest lv]
    have ts: "map_of r ''timestamp''
        = single_after (map_of result ''timestamp'') (List.map_filter timestamp_of (e # es))"
      using ih eff
      by (simp only: map_filter_Cons_append [of timestamp_of e es] single_after_append [symmetric])
    have mi: "map_of r ''meter_id''
        = single_after (map_of result ''meter_id'') (List.map_filter meter_id_of (e # es))"
      using ih eff
      by (simp only: map_filter_Cons_append [of meter_id_of e es] single_after_append [symmetric])
    have mm: "map_of r ''meter_model''
        = single_after (map_of result ''meter_model'') (List.map_filter meter_model_of (e # es))"
      using ih eff
      by (simp only: map_filter_Cons_append [of meter_model_of e es] single_after_append [symmetric])
    have st: "map_of r ''strings''
        = list_after (map_of result ''strings'') (map VStr (List.map_filter string_of (e # es)))"
      using ih eff
      by (simp only: map_filter_Cons_append [of string_of e es] map_append
          list_after_append [symmetric])
    have u16: "map_of r ''u16_values''
        = list_after (map_of result ''u16_values'') (map VInt (List.map_filter u16_of (e # es)))"
      using ih eff
      by (simp only: map_filter_Cons_append [of u16_of e es] map_append
          list_after_append [symmetric])
    from ts mi mm st u16 show ?thesis by blast
  qed
qed

text \<open>
  Claim C10. With the elements of the buffer in the order the walk meets them: the output
  holds under \<^verbatim>\<open>timestamp\<close>, \<^verbatim>\<open>meter_id\<close> and \<^verbatim>\<open>meter_model\<close> the value of the last element that
  qualifies for the key (nothing if none does), earlier values being overwritten, and under
  \<^verbatim>\<open>strings\<close> and \<^verbatim>\<open>u16_values\<close> the list of the values of all qualifying elements in that order
  (no key if there is none).
\<close>

theorem last_wins_lists_accumulate:
  "\<exists>d. parse_tlv payload = Inr d
     \<and> map_of d ''timestamp''
         = map_option VStr (last_of (List.map_filter timestamp_of (elements payload)))
     \<and> map_of d ''meter_id''
         = map_option VStr (last_of (List.map_filter meter_id_of (elements payload)))
     \<and> map_of d ''meter_model''
         = map_option VStr (last_of (List.map_filter meter_model_of (elements payload)))
     \<and> map_of d ''strings''
         = (if List.map_filter string_of (elements payload) = [] then None
            else Some (VList (map VStr (List.map_filter string_of (elements payload)))))
     \<and> map_of d ''u16_values''
         = (if List.map_filter u16_of (elements payload) = [] then None
            else Some (VList (map VInt (List.map_filter u16_of (elements payload)))))"
proof -
  from parse_tlv_loop_total [of payload] obtain result u32_values
    where l: "parse_tlv_loop payload 0 [] [] = Inr (result, u32_values)"
      and inv: "walk_inv result u32_values" by blast
  from l have ae: "apply_elements (elements payload) [] [] = Inr (result, u32_values)"
    by (simp add: parse_tlv_loop_elements)
  have lv: "list_valued [] ''strings''" "list_valued [] ''u16_values''"
    by (simp_all add: list_valued_def)
  note eff = apply_elements_effect [OF ae lv]
  from inv have "u32_range u32_values" by (simp add: walk_inv_def)
  from map_fields_lookup [OF this, of result] obtain d where
    d: "map_fields result u32_values = Inr d"
    and frame: "\<forall>k. k \<notin> {''active_power_import'', ''current_l1'', ''current_l2'', ''current_l3'',
                  ''voltage_l1'', ''voltage_l2'', ''voltage_l3'', ''active_import_total''}
           \<longrightarrow> map_of d k = map_of result k"
    by blast
  from d parse_tlv_of_loop [OF l] have p: "parse_tlv payload = Inr d" by simp
  from frame have k: "map_of d ''timestamp'' = map_of result ''timestamp''"
    "map_of d ''meter_id'' = map_of result ''meter_id''"
    "map_of d ''meter_model'' = map_of result ''meter_model''"
    "map_of d ''strings'' = map_of result ''strings''"
    "map_of d ''u16_values'' = map_of result ''u16_values''"
    by simp_all
  have s: "single_after None xs = map_option VStr (last_of xs)" for xs
    by (simp add: single_after_def last_of_def)
  have a: "list_after None xs = (if xs = [] then None else Some (VList xs))" for xs
    by (simp add: list_after_def)
  from eff k have "map_of d ''timestamp''
         = map_option VStr (last_of (List.map_filter timestamp_of (elements payload)))"
    and "map_of d ''meter_id''
         = map_option VStr (last_of (List.map_filter meter_id_of (elements payload)))"
    and "map_of d ''meter_model''
         = map_option VStr (last_of (List.map_filter meter_model_of (elements payload)))"
    and "map_of d ''strings''
         = (if List.map_filter string_of (elements payload) = [] then None
            else Some (VList (map VStr (List.map_filter string_of (elements payload)))))"
    and "map_of d ''u16_values''
         = (if List.map_filter u16_of (elements payload) = [] then None
            else Some (VList (map VInt (List.map_filter u16_of (elements payload)))))"
    by (simp_all add: s a)
  with p show ?thesis by blast
qed

theorem last_wins_lists_accumulate_witness:
  "\<exists>d. parse_tlv
         [0x09, 0x0C, 0x07, 0x07, 0xE9, 0x0B, 0x15, 0x00, 0x0A, 0x1E, 0, 0, 0, 0,
          0x09, 0x07, 0x4B, 0x46, 0x4D, 0x5F, 0x30, 0x30, 0x31,
          0x10, 0x00, 0x01,
          0x09, 0x0C, 0x07, 0x07, 0xE9, 0x0B, 0x16, 0x00, 0x0B, 0x00, 0, 0, 0, 0,
          0x09, 0x07, 0x4B, 0x46, 0x4D, 0x5F, 0x30, 0x30, 0x32,
          0x10, 0x00, 0x02] = Inr d
     \<and> map_of d ''timestamp'' = Some (VStr (ascii ''2025-11-22T11:00:00''))
     \<and> map_of d ''strings'' = Some (VList [VStr (ascii ''KFM_001''), VStr (ascii ''KFM_002'')])
     \<and> map_of d ''u16_values'' = Some (VList [VInt 1, VInt 2])"
proof -
  let ?p = "[0x09, 0x0C, 0x07, 0x07, 0xE9, 0x0B, 0x15, 0x00, 0x0A, 0x1E, 0, 0, 0, 0,
          0x09, 0x07, 0x4B, 0x46, 0x4D, 0x5F, 0x30, 0x30, 0x31,
          0x10, 0x00, 0x01,
          0x09, 0x0C, 0x07, 0x07, 0xE9, 0x0B, 0x16, 0x00, 0x0B, 0x00, 0, 0, 0, 0,
          0x09, 0x07, 0x4B, 0x46, 0x4D, 0x5F, 0x30, 0x30, 0x32,
          0x10, 0x00, 0x02] :: byte list"
  have ts: "map_option VStr (last_of (List.map_filter timestamp_of (elements ?p)))
      = Some (VStr (ascii ''2025-11-22T11:00:00''))"
    by code_simp
  have st: "List.map_filter string_of (elements ?p) = [ascii ''KFM_001'', ascii ''KFM_002'']"
    by code_simp
  have u16: "List.map_filter u16_of (elements ?p) = [1, 2]"
    by code_simp
  from last_wins_lists_accumulate [of ?p] show ?thesis
    unfolding ts st u16 by auto
qed

end
